theory Spec2Isabelle
  imports Main "HOL-Library.Word"
begin

unbundle bit_operations_syntax

section \<open>JavaScript values used by the program\<close>

text \<open>
  The program (\<open>src/javascript/main.js\<close>) computes SHA-1 on strings of the characters
  \<open>0\<close> and \<open>1\<close>. A derived JavaScript string is modelled as a \<open>string\<close>; the input
  string of \<open>sha1\<close> is modelled as the list of its UTF-16 code units (what
  \<open>charCodeAt\<close> reads), since Isabelle characters are bytes and JavaScript characters
  are not.

  The two exceptions that the built-ins used here can throw are values: \<open>RangeError\<close>
  (\<open>new Array(n)\<close> with an invalid length) and \<open>TypeError\<close> (\<open>undefined.split\<close>).
\<close>

datatype js_error = RangeError | TypeError

type_synonym 'a result = "js_error + 'a"

definition bind_result :: "'a result \<Rightarrow> ('a \<Rightarrow> 'b result) \<Rightarrow> 'b result" where
  "bind_result m f = (case m of Inl err \<Rightarrow> Inl err | Inr x \<Rightarrow> f x)"

text \<open>
  A JavaScript number is a double; the numbers of this program are non-negative integers
  below \<open>2 ^ 53\<close> (sums of two 32-bit values, string lengths, code units), on which
  double arithmetic is exact, or \<open>NaN\<close>. They are modelled as \<open>nat option\<close>, \<open>None\<close>
  being \<open>NaN\<close>.
\<close>

type_synonym number = "nat option"

definition number_plus :: "number \<Rightarrow> number \<Rightarrow> number" where
  "number_plus x y = (case x of None \<Rightarrow> None | Some m \<Rightarrow> (case y of None \<Rightarrow> None | Some n \<Rightarrow> Some (m + n)))"

definition digit_char :: "nat \<Rightarrow> char" where
  "digit_char d = ''0123456789abcdef'' ! d"

text \<open>\<open>n.toString(radix)\<close> for a non-negative integer; the program uses the radices 2 and 16.\<close>

function digits_radix :: "nat \<Rightarrow> nat \<Rightarrow> string" where
  "digits_radix radix n =
     (if radix < 2 \<or> n < radix then [digit_char n]
      else digits_radix radix (n div radix) @ [digit_char (n mod radix)])"
  by pat_completeness auto
termination
  by (relation "measure (\<lambda>(radix, n). n)") auto

declare digits_radix.simps [simp del]

definition toString_radix :: "number \<Rightarrow> nat \<Rightarrow> string" where
  "toString_radix x radix = (case x of None \<Rightarrow> ''NaN'' | Some n \<Rightarrow> digits_radix radix n)"

definition is_bit :: "char \<Rightarrow> bool" where
  "is_bit ch = (ch = CHR ''0'' \<or> ch = CHR ''1'')"

definition bit_val :: "char \<Rightarrow> nat" where
  "bit_val ch = (if ch = CHR ''1'' then 1 else 0)"

text \<open>
  \<open>parseInt(s, 2)\<close>: the value of the longest prefix of binary digits, \<open>NaN\<close> when that
  prefix is empty. (Leading white space and a sign, which \<open>parseInt\<close> also accepts, do not
  occur in the strings of this program.)
\<close>

definition parseInt2 :: "string \<Rightarrow> number" where
  "parseInt2 s =
     (let ds = takeWhile is_bit s
      in if ds = [] then None else Some (foldl (\<lambda>acc ch. 2 * acc + bit_val ch) 0 ds))"

section \<open>Utils\<close>

text \<open>
  \<open>getStringXTime(str, count) = new Array(count + 1).join(str)\<close>. The array constructor
  throws \<open>RangeError\<close> unless \<open>0 \<le> count + 1 \<le> 2 ^ 32 - 1\<close>; joining \<open>count + 1\<close>
  empty slots with \<open>str\<close> gives \<open>count\<close> copies of \<open>str\<close> (none when the array is empty).
\<close>

definition Utils_getStringXTime :: "string \<Rightarrow> int \<Rightarrow> string result" where
  "Utils_getStringXTime str count =
     (if count + 1 < 0 \<or> 4294967295 < count + 1 then Inl RangeError
      else Inr (concat (replicate (nat count) str)))"

text \<open>\<open>bits[i]\<close> on the array of characters of a string: \<open>None\<close> is \<open>undefined\<close>.\<close>

definition char_at :: "string \<Rightarrow> nat \<Rightarrow> char option" where
  "char_at bits i = (if i < length bits then Some (bits ! i) else None)"

definition Utils_xor :: "string \<Rightarrow> string \<Rightarrow> string" where
  "Utils_xor w1 w2 =
     map (\<lambda>i. if char_at w1 i \<noteq> char_at w2 i
                  \<and> (char_at w1 i = Some CHR ''1'' \<or> char_at w2 i = Some CHR ''1'')
               then CHR ''1'' else CHR ''0'')
         [0..<max (length w1) (length w2)]"

definition Utils_or :: "string \<Rightarrow> string \<Rightarrow> string" where
  "Utils_or w1 w2 =
     map (\<lambda>i. if char_at w1 i = Some CHR ''1'' \<or> char_at w2 i = Some CHR ''1''
               then CHR ''1'' else CHR ''0'')
         [0..<max (length w1) (length w2)]"

definition Utils_and :: "string \<Rightarrow> string \<Rightarrow> string" where
  "Utils_and w1 w2 =
     map (\<lambda>i. if char_at w1 i = Some CHR ''1'' \<and> char_at w2 i = Some CHR ''1''
               then CHR ''1'' else CHR ''0'')
         [0..<max (length w1) (length w2)]"

definition Utils_add :: "string \<Rightarrow> string \<Rightarrow> nat \<Rightarrow> string result" where
  "Utils_add w1 w2 len =
     (let decimalResult = number_plus (parseInt2 w1) (parseInt2 w2);
          binaryResult = toString_radix decimalResult 2
      in if length binaryResult < len then
           bind_result (Utils_getStringXTime ''0'' (int len - int (length binaryResult)))
             (\<lambda>zeros. Inr (zeros @ binaryResult))
         else if len < length binaryResult then
           Inr (drop (length binaryResult - len) binaryResult)
         else Inr binaryResult)"

definition Utils_not :: "string \<Rightarrow> string" where
  "Utils_not w1 =
     map (\<lambda>i. if char_at w1 i = Some CHR ''0'' then CHR ''1'' else CHR ''0'') [0..<length w1]"

text \<open>
  \<open>rotate\<close> moves the first character to the end, \<open>count\<close> times. On the empty string
  \<open>splice\<close> yields nothing, \<open>undefined\<close> is pushed and joins as the empty string.
\<close>

fun Utils_rotate :: "string \<Rightarrow> nat \<Rightarrow> string" where
  "Utils_rotate str 0 = str"
| "Utils_rotate str (Suc n) = Utils_rotate (case str of [] \<Rightarrow> [] | ch # rest \<Rightarrow> rest @ [ch]) n"

text \<open>The guard compares with the literal 8, the padding uses \<open>length\<close>, as in the source.\<close>

definition Utils_binToHex :: "string \<Rightarrow> int \<Rightarrow> string result" where
  "Utils_binToHex str len =
     (let hex = toString_radix (parseInt2 str) 16
      in if length hex < 8 then
           bind_result (Utils_getStringXTime ''0'' (len - int (length hex))) (\<lambda>zeros. Inr (zeros @ hex))
         else Inr hex)"

section \<open>Main.sha1\<close>

subsection \<open>Steps 1 to 8: encoding and padding\<close>

text \<open>
  Steps 1 and 2: \<open>str.split("")\<close> yields one string per code unit and \<open>charCodeAt(0)\<close>
  reads that unit back, so the codes are the code units of the input.
\<close>

definition step2_to_ascii_code :: "nat list \<Rightarrow> nat list" where
  "step2_to_ascii_code str = str"

definition step3_ascii_binary :: "nat list \<Rightarrow> string list" where
  "step3_ascii_binary codes = map (\<lambda>c. toString_radix (Some c) 2) codes"

definition pad_to_8 :: "string \<Rightarrow> string result" where
  "pad_to_8 c =
     (if length c < 8 then
        bind_result (Utils_getStringXTime ''0'' (8 - int (length c))) (\<lambda>zeros. Inr (zeros @ c))
      else Inr c)"

text \<open>\<open>Array.map\<close> with a callback that may throw: the first exception ends the map.\<close>

fun map_result :: "('a \<Rightarrow> 'b result) \<Rightarrow> 'a list \<Rightarrow> 'b list result" where
  "map_result f [] = Inr []"
| "map_result f (x # xs) =
     bind_result (f x) (\<lambda>y. bind_result (map_result f xs) (\<lambda>ys. Inr (y # ys)))"

definition step4_ascii_binary_8_length :: "string list \<Rightarrow> string list result" where
  "step4_ascii_binary_8_length bins = map_result pad_to_8 bins"

definition step5_combine_str :: "string list \<Rightarrow> string" where
  "step5_combine_str bins = concat bins"

definition step6_append_1 :: "string \<Rightarrow> string" where
  "step6_append_1 step5 = step5 @ ''1''"

definition step7_modulo_512_is_448 :: "string \<Rightarrow> string result" where
  "step7_modulo_512_is_448 str =
     (let currentModulo = length str mod 512
      in if currentModulo < 448 then
           bind_result (Utils_getStringXTime ''0'' (448 - int currentModulo)) (\<lambda>zeros. Inr (str @ zeros))
         else if 448 < currentModulo then
           bind_result (Utils_getStringXTime ''0'' (512 - int currentModulo + 448)) (\<lambda>zeros. Inr (str @ zeros))
         else Inr str)"

definition step8_append_step5_length :: "string \<Rightarrow> string \<Rightarrow> string result" where
  "step8_append_step5_length str step5 =
     (let step5BinaryLength = toString_radix (Some (length step5)) 2
      in bind_result (Utils_getStringXTime ''0'' (64 - int (length step5BinaryLength)))
           (\<lambda>zeros. Inr (str @ (zeros @ step5BinaryLength))))"

text \<open>The padded message: steps 2 to 8 in sequence, together with the step 5 string.\<close>

definition padded_message :: "nat list \<Rightarrow> string result" where
  "padded_message str =
     bind_result (step4_ascii_binary_8_length (step3_ascii_binary (step2_to_ascii_code str)))
       (\<lambda>step4. let step5 = step5_combine_str step4
                 in bind_result (step7_modulo_512_is_448 (step6_append_1 step5))
                      (\<lambda>step7. step8_append_step5_length step7 step5))"

subsection \<open>Steps 9 to 11: chunks, words, schedule\<close>

function split_every :: "nat \<Rightarrow> string \<Rightarrow> string list" where
  "split_every n str =
     (if 0 < length str \<and> 0 < n then take n str # split_every n (drop n str) else [])"
  by pat_completeness auto
termination
  by (relation "measure (\<lambda>(n, str). length str)") auto

declare split_every.simps [simp del]

definition step9_split_512b_chunks :: "string \<Rightarrow> string list" where
  "step9_split_512b_chunks str = split_every 512 str"

definition step10_split_32b_words :: "string list \<Rightarrow> string list list" where
  "step10_split_32b_words chunks = map (split_every 32) chunks"

text \<open>
  \<open>words[i]\<close> as an operand of \<open>Utils.xor\<close>: out of range it is \<open>undefined\<close>, and
  \<open>undefined.split\<close> throws \<open>TypeError\<close>.
\<close>

definition word_at :: "string list \<Rightarrow> nat \<Rightarrow> string result" where
  "word_at words i = (if i < length words then Inr (words ! i) else Inl TypeError)"

text \<open>The inner loop of step 11: \<open>for (var j = 16; words.length < 80; j++)\<close>.\<close>

function extend_words :: "nat \<Rightarrow> string list \<Rightarrow> string list result" where
  "extend_words j words =
     (if length words < 80 then
        bind_result (word_at words (j - 3)) (\<lambda>w3.
        bind_result (word_at words (j - 8)) (\<lambda>w8.
        bind_result (word_at words (j - 14)) (\<lambda>w14.
        bind_result (word_at words (j - 16)) (\<lambda>w16.
          extend_words (j + 1)
            (words @ [Utils_rotate (Utils_xor (Utils_xor (Utils_xor w3 w8) w14) w16) 1])))))
      else Inr words)"
  by pat_completeness auto
termination
  by (relation "measure (\<lambda>(j, words). 80 - length words)") auto

declare extend_words.simps [simp del]

definition step11_80_words_per_chunk :: "string list list \<Rightarrow> string list list result" where
  "step11_80_words_per_chunk chunks = map_result (extend_words 16) chunks"

subsection \<open>Steps 12 and 13: compression\<close>

record hash_state =
  h0 :: string
  h1 :: string
  h2 :: string
  h3 :: string
  h4 :: string

record registers =
  reg_a :: string
  reg_b :: string
  reg_c :: string
  reg_d :: string
  reg_e :: string

definition initial_hash :: hash_state where
  "initial_hash =
     \<lparr> h0 = ''01100111010001010010001100000001'',
       h1 = ''11101111110011011010101110001001'',
       h2 = ''10011000101110101101110011111110'',
       h3 = ''00010000001100100101010001110110'',
       h4 = ''11000011110100101110000111110000'' \<rparr>"

definition round_f :: "nat \<Rightarrow> string \<Rightarrow> string \<Rightarrow> string \<Rightarrow> string" where
  "round_f i b c d =
     (if i < 20 then Utils_or (Utils_and b c) (Utils_and (Utils_not b) d)
      else if i < 40 then Utils_xor (Utils_xor b c) d
      else if i < 60 then Utils_xor (Utils_xor (Utils_and b c) (Utils_and b d)) (Utils_and c d)
      else Utils_xor (Utils_xor b c) d)"

definition round_k :: "nat \<Rightarrow> string" where
  "round_k i =
     (if i < 20 then ''01011010100000100111100110011001''
      else if i < 40 then ''01101110110110011110101110100001''
      else if i < 60 then ''10001111000110111011110011011100''
      else ''11001010011000101100000111010110'')"

text \<open>
  \<open>words[i]\<close> as an operand of \<open>Utils.add\<close>: \<open>parseInt\<close> converts its argument to a
  string, so \<open>undefined\<close> is read as the string \<open>undefined\<close>.
\<close>

definition word_arg :: "string list \<Rightarrow> nat \<Rightarrow> string" where
  "word_arg words i = (if i < length words then words ! i else ''undefined'')"

text \<open>The body of the round loop, for round \<open>i\<close>.\<close>

definition round_step :: "string list \<Rightarrow> nat \<Rightarrow> registers \<Rightarrow> registers result" where
  "round_step words i r =
     (let f = round_f i (reg_b r) (reg_c r) (reg_d r);
          k = round_k i;
          tmp0 = Utils_rotate (reg_a r) 5
      in bind_result (Utils_add tmp0 f 32) (\<lambda>tmp1.
         bind_result (Utils_add tmp1 (reg_e r) 32) (\<lambda>tmp2.
         bind_result (Utils_add tmp2 k 32) (\<lambda>tmp3.
         bind_result (Utils_add tmp3 (word_arg words i) 32) (\<lambda>tmp.
           Inr \<lparr> reg_a = tmp, reg_b = reg_a r, reg_c = Utils_rotate (reg_b r) 30,
                 reg_d = reg_c r, reg_e = reg_d r \<rparr>)))))"

text \<open>
  The round loop \<open>for (var i = 0; i < 80; i++)\<close>, entered at \<open>i\<close>. The bound is a
  parameter so that the registers after any number of rounds can be named; the source's
  loop is \<open>round_loop 80\<close>.
\<close>

function round_loop :: "nat \<Rightarrow> string list \<Rightarrow> nat \<Rightarrow> registers \<Rightarrow> registers result" where
  "round_loop n words i r =
     (if i < n then bind_result (round_step words i r) (\<lambda>r'. round_loop n words (i + 1) r')
      else Inr r)"
  by pat_completeness auto
termination
  by (relation "measure (\<lambda>(n, words, i, r). n - i)") auto

declare round_loop.simps [simp del]

definition rounds :: "string list \<Rightarrow> registers \<Rightarrow> registers result" where
  "rounds words r = round_loop 80 words 0 r"

text \<open>The callback of \<open>forEach\<close> in step 13: one chunk folded into the hash registers.\<close>

definition process_chunk :: "hash_state \<Rightarrow> string list \<Rightarrow> hash_state result" where
  "process_chunk h words =
     bind_result
       (rounds words \<lparr> reg_a = h0 h, reg_b = h1 h, reg_c = h2 h, reg_d = h3 h, reg_e = h4 h \<rparr>)
       (\<lambda>r.
         bind_result (Utils_add (h0 h) (reg_a r) 32) (\<lambda>n0.
         bind_result (Utils_add (h1 h) (reg_b r) 32) (\<lambda>n1.
         bind_result (Utils_add (h2 h) (reg_c r) 32) (\<lambda>n2.
         bind_result (Utils_add (h3 h) (reg_d r) 32) (\<lambda>n3.
         bind_result (Utils_add (h4 h) (reg_e r) 32) (\<lambda>n4.
           Inr \<lparr> h0 = n0, h1 = n1, h2 = n2, h3 = n3, h4 = n4 \<rparr>))))))"

fun step13_process :: "hash_state \<Rightarrow> string list list \<Rightarrow> hash_state result" where
  "step13_process h [] = Inr h"
| "step13_process h (words # chunks) =
     bind_result (process_chunk h words) (\<lambda>h'. step13_process h' chunks)"

subsection \<open>Step 14 and the whole function\<close>

definition step14_finalize :: "hash_state \<Rightarrow> string result" where
  "step14_finalize h =
     bind_result (Utils_binToHex (h0 h) 8) (\<lambda>x0.
     bind_result (Utils_binToHex (h1 h) 8) (\<lambda>x1.
     bind_result (Utils_binToHex (h2 h) 8) (\<lambda>x2.
     bind_result (Utils_binToHex (h3 h) 8) (\<lambda>x3.
     bind_result (Utils_binToHex (h4 h) 8) (\<lambda>x4.
       Inr (x0 @ x1 @ x2 @ x3 @ x4))))))"

definition final_hash :: "nat list \<Rightarrow> hash_state result" where
  "final_hash str =
     bind_result (padded_message str) (\<lambda>step8.
     bind_result (step11_80_words_per_chunk (step10_split_32b_words (step9_split_512b_chunks step8)))
       (\<lambda>step11. step13_process initial_hash step11))"

definition sha1 :: "nat list \<Rightarrow> string result" where
  "sha1 str = bind_result (final_hash str) step14_finalize"

text \<open>The code units of a string of one-byte characters.\<close>

definition code_units :: "string \<Rightarrow> nat list" where
  "code_units s = map of_char s"

section \<open>Bit strings as numbers\<close>

text \<open>
  The vocabulary of the properties: a string is \<open>binary\<close> when all its characters are
  \<open>0\<close> or \<open>1\<close>; \<open>bin_value\<close> reads it as a big-endian unsigned number;
  \<open>word32\<close> strings are the 32-character binary strings; \<open>fixed_digits radix k n\<close>
  is the representation of \<open>n\<close> (modulo \<open>radix ^ k\<close>) with exactly \<open>k\<close> digits.
\<close>

definition binary :: "string \<Rightarrow> bool" where
  "binary s = list_all is_bit s"

definition bin_value :: "string \<Rightarrow> nat" where
  "bin_value s = foldl (\<lambda>acc ch. 2 * acc + bit_val ch) 0 s"

definition word32 :: "string \<Rightarrow> bool" where
  "word32 s = (length s = 32 \<and> binary s)"

fun fixed_digits :: "nat \<Rightarrow> nat \<Rightarrow> nat \<Rightarrow> string" where
  "fixed_digits radix 0 n = []"
| "fixed_digits radix (Suc k) n = fixed_digits radix k (n div radix) @ [digit_char (n mod radix)]"

text \<open>The 32-character string of a 32-bit word, and the word of a string.\<close>

definition bits32 :: "32 word \<Rightarrow> string" where
  "bits32 x = fixed_digits 2 32 (unat x)"

definition word_of_bits :: "string \<Rightarrow> 32 word" where
  "word_of_bits s = word_of_nat (bin_value s)"

text \<open>
  A JavaScript string has fewer than \<open>2 ^ 53\<close> code units, each below \<open>2 ^ 16\<close>: the
  inputs \<open>sha1\<close> can receive.
\<close>

definition js_string :: "nat list \<Rightarrow> bool" where
  "js_string str = (length str < 2 ^ 53 \<and> list_all (\<lambda>c. c < 65536) str)"

text \<open>
  What steps 3 and 4 produce for one code unit (its binary digits, padded on the left to
  at least eight characters), and the number of zeros step 7 appends to a string of a
  given length.
\<close>

definition unit_bits :: "nat \<Rightarrow> string" where
  "unit_bits c = replicate (8 - length (digits_radix 2 c)) CHR ''0'' @ digits_radix 2 c"

definition zero_pad_count :: "nat \<Rightarrow> nat" where
  "zero_pad_count len =
     (let currentModulo = len mod 512
      in if currentModulo < 448 then 448 - currentModulo
         else if 448 < currentModulo then 960 - currentModulo
         else 0)"

definition regs32 :: "registers \<Rightarrow> bool" where
  "regs32 r = (word32 (reg_a r) \<and> word32 (reg_b r) \<and> word32 (reg_c r) \<and> word32 (reg_d r) \<and> word32 (reg_e r))"

definition hash32 :: "hash_state \<Rightarrow> bool" where
  "hash32 h = (word32 (h0 h) \<and> word32 (h1 h) \<and> word32 (h2 h) \<and> word32 (h3 h) \<and> word32 (h4 h))"

section \<open>The specification's components on 32-bit words\<close>

text \<open>
  The components of the specification (sections 4.3 to 4.5), written on native 32-bit
  words as the specification words them: the round table, the compressor, the schedule
  expander and the finalizer. The program is compared with these.
\<close>

type_synonym state32 = "32 word \<times> 32 word \<times> 32 word \<times> 32 word \<times> 32 word"

definition spec_f :: "nat \<Rightarrow> 32 word \<Rightarrow> 32 word \<Rightarrow> 32 word \<Rightarrow> 32 word" where
  "spec_f t b c d =
     (if t < 20 then (b AND c) OR ((NOT b) AND d)
      else if t < 40 then b XOR c XOR d
      else if t < 60 then (b AND c) OR (b AND d) OR (c AND d)
      else b XOR c XOR d)"

definition spec_k :: "nat \<Rightarrow> 32 word" where
  "spec_k t =
     (if t < 20 then 0x5A827999
      else if t < 40 then 0x6ED9EBA1
      else if t < 60 then 0x8F1BBCDC
      else 0xCA62C1D6)"

fun spec_round :: "32 word list \<Rightarrow> nat \<Rightarrow> state32 \<Rightarrow> state32" where
  "spec_round W t (a, b, c, d, e) =
     (word_rotl 5 a + spec_f t b c d + e + spec_k t + W ! t, a, word_rotl 30 b, c, d)"

definition spec_rounds :: "nat \<Rightarrow> 32 word list \<Rightarrow> state32 \<Rightarrow> state32" where
  "spec_rounds n W s = fold (spec_round W) [0..<n] s"

fun spec_add_state :: "state32 \<Rightarrow> state32 \<Rightarrow> state32" where
  "spec_add_state (x0, x1, x2, x3, x4) (a, b, c, d, e) = (x0 + a, x1 + b, x2 + c, x3 + d, x4 + e)"

definition spec_compress :: "state32 \<Rightarrow> 32 word list \<Rightarrow> state32" where
  "spec_compress H W = spec_add_state H (spec_rounds 80 W H)"

text \<open>\<open>spec_expand_to n\<close> extends the schedule up to position \<open>n\<close> (exclusive).\<close>

function spec_expand_to :: "nat \<Rightarrow> 32 word list \<Rightarrow> 32 word list" where
  "spec_expand_to n W =
     (let t = length W
      in if t < n then
           spec_expand_to n
             (W @ [word_rotl 1 (W ! (t - 3) XOR W ! (t - 8) XOR W ! (t - 14) XOR W ! (t - 16))])
         else W)"
  by pat_completeness auto
termination
  by (relation "measure (\<lambda>(n, W). n - length W)") auto

declare spec_expand_to.simps [simp del]

definition spec_expand :: "32 word list \<Rightarrow> 32 word list" where
  "spec_expand block_words = spec_expand_to 80 block_words"

text \<open>
  The same schedule built newest word first, so that the four earlier words sit at fixed
  offsets: a form that evaluates quickly.
\<close>

fun expand_rev :: "nat \<Rightarrow> 32 word list \<Rightarrow> 32 word list" where
  "expand_rev 0 R = R"
| "expand_rev (Suc k) R = expand_rev k (word_rotl 1 (R ! 2 XOR R ! 7 XOR R ! 13 XOR R ! 15) # R)"

definition spec_init :: state32 where
  "spec_init = (0x67452301, 0xEFCDAB89, 0x98BADCFE, 0x10325476, 0xC3D2E1F0)"

text \<open>
  The block splitter: the sixteen 32-bit words of each 512-bit block of a padded message,
  read off the program's own chunks.
\<close>

definition message_blocks :: "string \<Rightarrow> 32 word list list" where
  "message_blocks p =
     map (\<lambda>chunk. map word_of_bits chunk) (step10_split_32b_words (step9_split_512b_chunks p))"

text \<open>The finalizer, rendered in hexadecimal: eight digits for each register.\<close>

definition hex8 :: "32 word \<Rightarrow> string" where
  "hex8 x = fixed_digits 16 8 (unat x)"

fun spec_finalize_hex :: "state32 \<Rightarrow> string" where
  "spec_finalize_hex (x0, x1, x2, x3, x4) = hex8 x0 @ hex8 x1 @ hex8 x2 @ hex8 x3 @ hex8 x4"

text \<open>The digest of a padded message by the specification's pipeline, in hexadecimal.\<close>

definition spec_digest_hex :: "string \<Rightarrow> string" where
  "spec_digest_hex p =
     spec_finalize_hex (foldl spec_compress spec_init (map spec_expand (message_blocks p)))"

text \<open>Registers and hash state of the program holding given words, and back.\<close>

fun regs_of :: "state32 \<Rightarrow> registers" where
  "regs_of (a, b, c, d, e) =
     \<lparr> reg_a = bits32 a, reg_b = bits32 b, reg_c = bits32 c, reg_d = bits32 d, reg_e = bits32 e \<rparr>"

fun hash_of :: "state32 \<Rightarrow> hash_state" where
  "hash_of (x0, x1, x2, x3, x4) =
     \<lparr> h0 = bits32 x0, h1 = bits32 x1, h2 = bits32 x2, h3 = bits32 x3, h4 = bits32 x4 \<rparr>"

definition regs_words :: "registers \<Rightarrow> state32" where
  "regs_words r =
     (word_of_bits (reg_a r), word_of_bits (reg_b r), word_of_bits (reg_c r),
      word_of_bits (reg_d r), word_of_bits (reg_e r))"

definition hash_words :: "hash_state \<Rightarrow> state32" where
  "hash_words h =
     (word_of_bits (h0 h), word_of_bits (h1 h), word_of_bits (h2 h),
      word_of_bits (h3 h), word_of_bits (h4 h))"

section \<open>Lemmas\<close>

lemma bind_result_Inr [simp]: "bind_result (Inr x) f = f x"
  by (simp add: bind_result_def)

lemma bind_result_Inl [simp]: "bind_result (Inl e) f = Inl e"
  by (simp add: bind_result_def)

lemma binary_Nil [simp]: "binary []"
  by (simp add: binary_def)

lemma binary_Cons [simp]: "binary (ch # s) = (is_bit ch \<and> binary s)"
  by (simp add: binary_def)

lemma binary_append [simp]: "binary (s @ t) = (binary s \<and> binary t)"
  by (simp add: binary_def)

lemma binary_replicate [simp]: "binary (replicate n CHR ''0'')"
  by (simp add: binary_def is_bit_def list_all_iff)

lemma binary_nth: "binary s \<Longrightarrow> i < length s \<Longrightarrow> is_bit (s ! i)"
  by (simp add: binary_def list_all_length)

lemma binary_take: "binary s \<Longrightarrow> binary (take n s)"
  by (auto simp: binary_def list_all_iff dest: in_set_takeD)

lemma binary_drop: "binary s \<Longrightarrow> binary (drop n s)"
  by (auto simp: binary_def list_all_iff dest: in_set_dropD)

lemma binary_concat: "binary (concat xs) = (\<forall>s\<in>set xs. binary s)"
  by (induction xs) auto

lemma foldl_bin_acc:
  "foldl (\<lambda>acc ch. 2 * acc + bit_val ch) a s =
     a * 2 ^ length s + foldl (\<lambda>acc ch. 2 * acc + bit_val ch) 0 s"
proof (induction s arbitrary: a)
  case Nil
  show ?case by simp
next
  case (Cons ch s)
  have "foldl (\<lambda>acc ch. 2 * acc + bit_val ch) a (ch # s)
      = foldl (\<lambda>acc ch. 2 * acc + bit_val ch) (2 * a + bit_val ch) s" by simp
  also have "\<dots> = (2 * a + bit_val ch) * 2 ^ length s + foldl (\<lambda>acc ch. 2 * acc + bit_val ch) 0 s"
    by (rule Cons.IH)
  also have "foldl (\<lambda>acc ch. 2 * acc + bit_val ch) 0 (ch # s)
      = bit_val ch * 2 ^ length s + foldl (\<lambda>acc ch. 2 * acc + bit_val ch) 0 s"
    using Cons.IH [of "bit_val ch"] by simp
  ultimately show ?case by (simp add: algebra_simps)
qed

lemma bin_value_Nil [simp]: "bin_value [] = 0"
  by (simp add: bin_value_def)

lemma bin_value_append: "bin_value (s @ t) = bin_value s * 2 ^ length t + bin_value t"
  unfolding bin_value_def foldl_append by (rule foldl_bin_acc)

lemma bin_value_snoc: "bin_value (s @ [ch]) = 2 * bin_value s + bit_val ch"
  by (simp add: bin_value_def)

lemma bin_value_replicate [simp]: "bin_value (replicate n CHR ''0'') = 0"
proof (induction n)
  case 0
  show ?case by simp
next
  case (Suc n)
  have "replicate (Suc n) CHR ''0'' = replicate n CHR ''0'' @ [CHR ''0'']"
    by (simp add: replicate_append_same)
  then have "bin_value (replicate (Suc n) CHR ''0'') = 2 * bin_value (replicate n CHR ''0'') + bit_val CHR ''0''"
    by (simp only: bin_value_snoc)
  with Suc show ?case by (simp add: bit_val_def)
qed

lemma bin_value_less: "bin_value s < 2 ^ length s"
proof (induction s rule: rev_induct)
  case Nil
  show ?case by simp
next
  case (snoc ch s)
  have "bit_val ch \<le> 1" by (simp add: bit_val_def)
  with snoc show ?case by (simp add: bin_value_snoc)
qed

lemma bin_value_zeros_append [simp]: "bin_value (replicate n CHR ''0'' @ s) = bin_value s"
  by (simp add: bin_value_append)

lemma bin_value_drop:
  assumes "k \<le> length s"
  shows "bin_value (drop (length s - k) s) = bin_value s mod 2 ^ k"
proof -
  let ?m = "length s - k"
  have len: "length (drop ?m s) = k" using assms by simp
  have "bin_value s = bin_value (take ?m s @ drop ?m s)" by simp
  also have "\<dots> = bin_value (take ?m s) * 2 ^ k + bin_value (drop ?m s)"
    unfolding bin_value_append len ..
  finally have eq: "bin_value s = bin_value (take ?m s) * 2 ^ k + bin_value (drop ?m s)" .
  have "bin_value (drop ?m s) < 2 ^ k" using bin_value_less [of "drop ?m s"] len by simp
  with eq show ?thesis by simp
qed

lemma parseInt2_binary: "binary s \<Longrightarrow> s \<noteq> [] \<Longrightarrow> parseInt2 s = Some (bin_value s)"
proof -
  assume b: "binary s" and ne: "s \<noteq> []"
  have tw: "takeWhile is_bit s = s" using b by (simp add: binary_def list_all_iff)
  show ?thesis unfolding parseInt2_def tw Let_def bin_value_def using ne by simp
qed

lemma digit_char_0 [simp]: "digit_char 0 = CHR ''0''"
  by (simp add: digit_char_def)

lemma digit_char_1 [simp]: "digit_char (Suc 0) = CHR ''1''"
  by (simp add: digit_char_def)

lemma length_fixed_digits [simp]: "length (fixed_digits radix k n) = k"
  by (induction k arbitrary: n) simp_all

lemma fixed_digits_0: "fixed_digits radix k 0 = replicate k CHR ''0''"
  by (induction k) (simp_all add: replicate_append_same)

lemma fixed_digits_digits_radix:
  "2 \<le> radix \<Longrightarrow> n < radix ^ k \<Longrightarrow> 0 < k \<Longrightarrow>
     length (digits_radix radix n) \<le> k \<and>
     fixed_digits radix k n = replicate (k - length (digits_radix radix n)) CHR ''0'' @ digits_radix radix n"
proof (induction k arbitrary: n)
  case 0
  then show ?case by simp
next
  case (Suc k)
  show ?case
  proof (cases "n < radix")
    case True
    then have d: "digits_radix radix n = [digit_char n]"
      by (simp add: digits_radix.simps)
    from True show ?thesis
      by (simp add: d fixed_digits_0)
  next
    case False
    with Suc.prems have d: "digits_radix radix n = digits_radix radix (n div radix) @ [digit_char (n mod radix)]"
      by (simp add: digits_radix.simps [of radix n])
    have kpos: "0 < k"
    proof (rule ccontr)
      assume "\<not> 0 < k"
      with Suc.prems have "n < radix" by simp
      with False show False by simp
    qed
    have "n div radix < radix ^ k"
      using Suc.prems by (simp add: less_mult_imp_div_less mult.commute)
    from Suc.IH [OF Suc.prems(1) this kpos]
    show ?thesis by (simp add: d Suc_diff_le)
  qed
qed

lemma digit_char_mod2: "digit_char (n mod 2) = (if odd n then CHR ''1'' else CHR ''0'')"
  by (cases "even n") (simp_all add: odd_iff_mod_2_eq_one)

lemma binary_fixed_digits [simp]: "binary (fixed_digits 2 k n)"
  by (induction k arbitrary: n) (simp_all add: digit_char_mod2 is_bit_def)

lemma bit_val_digit_char: "bit_val (digit_char (n mod 2)) = n mod 2"
  by (cases "even n") (simp_all add: digit_char_mod2 bit_val_def odd_iff_mod_2_eq_one)

lemma bin_value_fixed_digits: "bin_value (fixed_digits 2 k n) = n mod 2 ^ k"
proof (induction k arbitrary: n)
  case 0
  show ?case by simp
next
  case (Suc k)
  have "bin_value (fixed_digits 2 (Suc k) n) = 2 * (n div 2 mod 2 ^ k) + n mod 2"
    by (simp add: bin_value_snoc Suc.IH bit_val_digit_char)
  also have "\<dots> = n mod (2 * 2 ^ k)"
    by (simp add: mod_mult2_eq)
  finally show ?case by simp
qed

lemma digit_char_bit_val: "is_bit ch \<Longrightarrow> digit_char (bit_val ch) = ch"
  by (auto simp: is_bit_def bit_val_def)

lemma fixed_digits_bin_value: "binary s \<Longrightarrow> fixed_digits 2 (length s) (bin_value s) = s"
proof (induction s rule: rev_induct)
  case Nil
  show ?case by simp
next
  case (snoc ch s)
  then have b: "binary s" and c: "is_bit ch" by simp_all
  have le: "bit_val ch \<le> 1" by (simp add: bit_val_def)
  have d: "(2 * bin_value s + bit_val ch) div 2 = bin_value s" using le by simp
  have m: "bit_val ch mod 2 = bit_val ch" using le by simp
  show ?case
    by (simp add: bin_value_snoc d m snoc.IH [OF b] digit_char_bit_val [OF c])
qed

lemma binary_unique:
  assumes "binary s" "binary t" "length s = length t" "bin_value s = bin_value t"
  shows "s = t"
proof -
  have "s = fixed_digits 2 (length s) (bin_value s)"
    using assms(1) by (simp add: fixed_digits_bin_value)
  also have "\<dots> = fixed_digits 2 (length t) (bin_value t)"
    using assms(3,4) by simp
  also have "\<dots> = t" using assms(2) by (simp add: fixed_digits_bin_value)
  finally show ?thesis .
qed

lemma digits_radix_nonempty [simp]: "digits_radix radix n \<noteq> []"
  by (subst digits_radix.simps) simp

lemma digits2_props:
  "binary (digits_radix 2 n) \<and> bin_value (digits_radix 2 n) = n"
proof -
  have lt: "n < 2 ^ Suc n"
    by (metis less_Suc_eq less_exp not_less_eq power_Suc)
  from fixed_digits_digits_radix [of 2 n "Suc n"] lt
  have eq: "fixed_digits 2 (Suc n) n =
      replicate (Suc n - length (digits_radix 2 n)) CHR ''0'' @ digits_radix 2 n"
    by simp
  have "binary (fixed_digits 2 (Suc n) n)" by (rule binary_fixed_digits)
  then have b: "binary (digits_radix 2 n)" unfolding eq by simp
  have "bin_value (fixed_digits 2 (Suc n) n) = n mod 2 ^ Suc n"
    by (rule bin_value_fixed_digits)
  then have "bin_value (digits_radix 2 n) = n mod 2 ^ Suc n" unfolding eq by simp
  with lt b show ?thesis by simp
qed

lemma binary_digits2 [simp]: "binary (digits_radix 2 n)"
  using digits2_props by simp

lemma bin_value_digits2 [simp]: "bin_value (digits_radix 2 n) = n"
  using digits2_props by simp

lemma length_digits2: "n < 2 ^ k \<Longrightarrow> 0 < k \<Longrightarrow> length (digits_radix 2 n) \<le> k"
  using fixed_digits_digits_radix [of 2 n k] by simp

lemma concat_replicate_single: "concat (replicate n [x]) = replicate n x"
  by (induction n) simp_all

lemma getStringXTime_zeros:
  "0 \<le> c \<Longrightarrow> c < 4294967295 \<Longrightarrow>
     Utils_getStringXTime ''0'' c = Inr (replicate (nat c) CHR ''0'')"
  by (simp add: Utils_getStringXTime_def concat_replicate_single)

lemma Utils_add_32:
  assumes "binary w1" "w1 \<noteq> []" "binary w2" "w2 \<noteq> []"
  shows "Utils_add w1 w2 32 = Inr (fixed_digits 2 32 (bin_value w1 + bin_value w2))"
proof -
  let ?v = "bin_value w1 + bin_value w2"
  let ?d = "digits_radix 2 ?v"
  have dec: "number_plus (parseInt2 w1) (parseInt2 w2) = Some ?v"
    using assms by (simp add: parseInt2_binary number_plus_def)
  have str: "toString_radix (Some ?v) 2 = ?d"
    by (simp add: toString_radix_def)
  have vlt: "?v < 2 ^ length ?d"
    using bin_value_less [of ?d] by simp
  have "\<exists>r. Utils_add w1 w2 32 = Inr r \<and> length r = 32 \<and> binary r \<and> bin_value r = ?v mod 2 ^ 32"
  proof (cases "length ?d < 32")
    case True
    then have g: "Utils_getStringXTime ''0'' (32 - int (length ?d))
        = Inr (replicate (32 - length ?d) CHR ''0'')"
      using getStringXTime_zeros [of "32 - int (length ?d)"] by (simp add: nat_diff_distrib')
    have "(2::nat) ^ length ?d \<le> 2 ^ 32"
      using True by (intro power_increasing) simp_all
    with vlt have "?v < 2 ^ 32" by simp
    then show ?thesis
      unfolding Utils_add_def dec str Let_def using True g by simp
  next
    case False
    show ?thesis
    proof (cases "32 < length ?d")
      case True
      have "bin_value (drop (length ?d - 32) ?d) = ?v mod 2 ^ 32"
        using bin_value_drop [of 32 ?d] True by simp
      then show ?thesis
        unfolding Utils_add_def dec str Let_def using True False
        by (simp add: binary_drop)
    next
      case F2: False
      with False have len: "length ?d = 32" by simp
      then have "?v < 2 ^ 32" using vlt by simp
      then show ?thesis
        unfolding Utils_add_def dec str Let_def using len by simp
    qed
  qed
  then obtain r where r: "Utils_add w1 w2 32 = Inr r" "length r = 32" "binary r"
      "bin_value r = ?v mod 2 ^ 32" by blast
  have "r = fixed_digits 2 32 ?v"
    by (rule binary_unique) (simp_all add: r bin_value_fixed_digits)
  with r(1) show ?thesis by simp
qed

lemma nth_fixed_digits2:
  "i < k \<Longrightarrow> fixed_digits 2 k n ! i = (if bit n (k - Suc i) then CHR ''1'' else CHR ''0'')"
proof (induction k arbitrary: n i)
  case 0
  then show ?case by simp
next
  case (Suc k)
  show ?case
  proof (cases "i < k")
    case True
    have e: "k - i = Suc (k - Suc i)" using True by simp
    have "fixed_digits 2 (Suc k) n ! i = fixed_digits 2 k (n div 2) ! i"
      using True by (simp add: nth_append)
    also have "\<dots> = (if bit (n div 2) (k - Suc i) then CHR ''1'' else CHR ''0'')"
      by (rule Suc.IH [OF True])
    also have "bit (n div 2) (k - Suc i) = bit n (Suc k - Suc i)"
      by (simp add: e bit_Suc)
    finally show ?thesis .
  next
    case False
    with Suc.prems have "i = k" by simp
    then show ?thesis by (simp add: nth_append digit_char_mod2 bit_0)
  qed
qed

lemma length_bits32 [simp]: "length (bits32 x) = 32"
  by (simp add: bits32_def)

lemma binary_bits32 [simp]: "binary (bits32 x)"
  by (simp add: bits32_def)

lemma bits32_nonempty [simp]: "bits32 x \<noteq> []"
proof
  assume "bits32 x = []"
  then have "length (bits32 x) = 0" by simp
  then show False by simp
qed

lemma word32_bits32 [simp]: "word32 (bits32 x)"
  by (simp add: word32_def)

lemma nth_bits32:
  "i < 32 \<Longrightarrow> bits32 x ! i = (if bit x (31 - i) then CHR ''1'' else CHR ''0'')"
  by (simp add: bits32_def nth_fixed_digits2 bit_unsigned_iff)

lemma char_at_bits32:
  "i < 32 \<Longrightarrow> char_at (bits32 x) i = Some (if bit x (31 - i) then CHR ''1'' else CHR ''0'')"
  by (simp add: char_at_def nth_bits32)

lemma Utils_xor_bits32: "Utils_xor (bits32 x) (bits32 y) = bits32 (x XOR y)"
  by (rule nth_equalityI) (simp_all add: Utils_xor_def char_at_bits32 nth_bits32 bit_xor_iff)

lemma Utils_and_bits32: "Utils_and (bits32 x) (bits32 y) = bits32 (x AND y)"
  by (rule nth_equalityI) (simp_all add: Utils_and_def char_at_bits32 nth_bits32 bit_and_iff)

lemma Utils_or_bits32: "Utils_or (bits32 x) (bits32 y) = bits32 (x OR y)"
  by (rule nth_equalityI) (simp_all add: Utils_or_def char_at_bits32 nth_bits32 bit_or_iff)

lemma Utils_not_bits32: "Utils_not (bits32 x) = bits32 (NOT x)"
  by (rule nth_equalityI) (simp_all add: Utils_not_def char_at_bits32 nth_bits32 bit_not_iff)

lemma Utils_rotate_eq: "Utils_rotate str n = rotate n str"
proof (induction n arbitrary: str)
  case 0
  show ?case by simp
next
  case (Suc n)
  have "Utils_rotate str (Suc n) = Utils_rotate (rotate1 str) n"
    by (cases str) simp_all
  also have "\<dots> = rotate n (rotate1 str)" by (rule Suc.IH)
  also have "\<dots> = rotate (Suc n) str" by (simp add: rotate1_rotate_swap)
  finally show ?case .
qed

lemma rot_index_aux:
  assumes "s < (64::nat)"
  shows "(63 - s) mod 32 = 31 - s mod 32"
proof (cases "s < 32")
  case True
  have s: "63 - s = 32 + (31 - s)" using True by simp
  have "(63 - s) mod 32 = (32 + (31 - s)) mod 32"
    by (rule arg_cong [where f = "\<lambda>x. x mod 32", OF s])
  also have "\<dots> = (31 - s) mod 32" by (simp only: mod_add_self1)
  also have "\<dots> = 31 - s" by (rule mod_less) simp
  finally have r: "(63 - s) mod 32 = 31 - s" .
  have m: "s mod 32 = s" using True by (rule mod_less)
  show ?thesis unfolding m by (rule r)
next
  case False
  then have ge: "32 \<le> s" by simp
  have lt: "s - 32 < 32" using assms by simp
  have "s mod 32 = (s - 32) mod 32" using ge by (rule le_mod_geq)
  also have "\<dots> = s - 32" using lt by (rule mod_less)
  finally have a: "s mod 32 = s - 32" .
  have "63 - s < 32" using ge by simp
  then have "(63 - s) mod 32 = 63 - s" by (rule mod_less)
  also have "\<dots> = 31 - (s - 32)" using ge assms by simp
  finally show ?thesis by (simp only: a)
qed

lemma rot_index:
  assumes "i < 32"
  shows "(63 - (i + n mod 32)) mod 32 = 31 - (n + i) mod (32::nat)"
proof -
  have "n mod 32 < 32" by simp
  with assms have "i + n mod 32 < 64" by simp
  then have "(63 - (i + n mod 32)) mod 32 = 31 - (i + n mod 32) mod 32"
    by (rule rot_index_aux)
  also have "(i + n mod 32) mod 32 = (n + i) mod 32"
    by (simp add: mod_add_right_eq add.commute)
  finally show ?thesis .
qed

lemma rotate_bits32: "rotate n (bits32 x) = bits32 (word_rotl n x)"
proof (rule nth_equalityI)
  show "length (rotate n (bits32 x)) = length (bits32 (word_rotl n x))" by simp
next
  fix i assume "i < length (rotate n (bits32 x))"
  then have i: "i < 32" by simp
  have m: "(n + i) mod 32 < 32" by simp
  have "rotate n (bits32 x) ! i = bits32 x ! ((n + i) mod 32)"
    using i by (simp add: nth_rotate)
  also have "\<dots> = (if bit x (31 - (n + i) mod 32) then CHR ''1'' else CHR ''0'')"
    by (rule nth_bits32 [OF m])
  also have "\<dots> = bits32 (word_rotl n x) ! i"
    using i by (simp add: nth_bits32 bit_word_rotl_iff rot_index)
  finally show "rotate n (bits32 x) ! i = bits32 (word_rotl n x) ! i" .
qed

lemma Utils_rotate_bits32: "Utils_rotate (bits32 x) n = bits32 (word_rotl n x)"
  by (simp add: Utils_rotate_eq rotate_bits32)

lemma bin_value_bits32 [simp]: "bin_value (bits32 x) = unat x"
proof -
  have "unat x < 2 ^ 32" using unsigned_less [of x, where 'a = nat] by simp
  then show ?thesis by (simp add: bits32_def bin_value_fixed_digits)
qed

lemma fixed_digits_mod: "fixed_digits 2 k (n mod 2 ^ k) = fixed_digits 2 k n"
  by (rule binary_unique) (simp_all add: bin_value_fixed_digits)

lemma Utils_add_bits32: "Utils_add (bits32 x) (bits32 y) 32 = Inr (bits32 (x + y))"
proof -
  have "Utils_add (bits32 x) (bits32 y) 32 = Inr (fixed_digits 2 32 (unat x + unat y))"
    by (simp add: Utils_add_32)
  also have "fixed_digits 2 32 (unat x + unat y) = fixed_digits 2 32 ((unat x + unat y) mod 2 ^ 32)"
    by (simp only: fixed_digits_mod)
  also have "(unat x + unat y) mod 2 ^ 32 = unat (x + y)"
    by (simp add: unat_word_ariths)
  finally show ?thesis by (simp add: bits32_def)
qed

lemma bits32_word_of_bits: "word32 s \<Longrightarrow> bits32 (word_of_bits s) = s"
proof -
  assume w: "word32 s"
  then have len: "length s = 32" and b: "binary s" by (simp_all add: word32_def)
  have "bits32 (word_of_bits s) = fixed_digits 2 32 (bin_value s mod 2 ^ 32)"
    by (simp add: bits32_def word_of_bits_def unat_of_nat)
  also have "\<dots> = fixed_digits 2 (length s) (bin_value s)"
    by (simp only: fixed_digits_mod len)
  also have "\<dots> = s" by (rule fixed_digits_bin_value [OF b])
  finally show ?thesis .
qed

lemma word_of_bits_bits32 [simp]: "word_of_bits (bits32 x) = x"
  by (simp add: word_of_bits_def)

lemma bits32_inject [simp]: "bits32 x = bits32 y \<longleftrightarrow> x = y"
proof
  assume "bits32 x = bits32 y"
  then have "word_of_bits (bits32 x) = word_of_bits (bits32 y)" by simp
  then show "x = y" by simp
qed simp

lemma word32_obtain:
  assumes "word32 s"
  obtains x where "s = bits32 x"
  using bits32_word_of_bits [OF assms] by metis

lemma word32_literal: "length s = 32 \<Longrightarrow> list_all is_bit s \<Longrightarrow> word32 s"
  by (simp add: word32_def binary_def)

lemma bits32_eqI: "word32 s \<Longrightarrow> word_of_bits s = x \<Longrightarrow> s = bits32 x"
  using bits32_word_of_bits by auto

lemma maj_word: "(x AND y) XOR (x AND z) XOR (y AND z) = (x AND y) OR (x AND z) OR (y AND z)"
  for x y z :: "32 word"
  by (rule bit_word_eqI) (auto simp: bit_xor_iff bit_and_iff bit_or_iff)

lemma k1: "''01011010100000100111100110011001'' = bits32 0x5A827999"
  by (rule bits32_eqI) (simp_all add: word32_def is_bit_def word_of_bits_def bin_value_def bit_val_def)

lemma k2: "''01101110110110011110101110100001'' = bits32 0x6ED9EBA1"
  by (rule bits32_eqI) (simp_all add: word32_def is_bit_def word_of_bits_def bin_value_def bit_val_def)

lemma k3: "''10001111000110111011110011011100'' = bits32 0x8F1BBCDC"
  by (rule bits32_eqI) (simp_all add: word32_def is_bit_def word_of_bits_def bin_value_def bit_val_def)

lemma k4: "''11001010011000101100000111010110'' = bits32 0xCA62C1D6"
  by (rule bits32_eqI) (simp_all add: word32_def is_bit_def word_of_bits_def bin_value_def bit_val_def)

lemma round_k_bits32: "round_k i = bits32 (spec_k i)"
  by (simp add: round_k_def spec_k_def k1 k2 k3 k4)

lemma round_f_bits32: "round_f i (bits32 b) (bits32 c) (bits32 d) = bits32 (spec_f i b c d)"
  by (simp add: round_f_def spec_f_def Utils_xor_bits32 Utils_and_bits32 Utils_or_bits32
      Utils_not_bits32 maj_word xor.assoc)

subsection \<open>Operations on 32-character strings\<close>

lemma word32_Utils_xor: "word32 x \<Longrightarrow> word32 y \<Longrightarrow> word32 (Utils_xor x y)"
  by (elim word32_obtain) (simp add: Utils_xor_bits32)

lemma word32_Utils_and: "word32 x \<Longrightarrow> word32 y \<Longrightarrow> word32 (Utils_and x y)"
  by (elim word32_obtain) (simp add: Utils_and_bits32)

lemma word32_Utils_or: "word32 x \<Longrightarrow> word32 y \<Longrightarrow> word32 (Utils_or x y)"
  by (elim word32_obtain) (simp add: Utils_or_bits32)

lemma word32_Utils_not: "word32 x \<Longrightarrow> word32 (Utils_not x)"
  by (elim word32_obtain) (simp add: Utils_not_bits32)

lemma word32_Utils_rotate: "word32 x \<Longrightarrow> word32 (Utils_rotate x n)"
  by (elim word32_obtain) (simp add: Utils_rotate_bits32)

lemma Utils_add_word32:
  "word32 x \<Longrightarrow> word32 y \<Longrightarrow> Utils_add x y 32 = Inr (bits32 (word_of_bits x + word_of_bits y))"
  by (elim word32_obtain) (simp add: Utils_add_bits32)

lemma word32_round_k: "word32 (round_k t)"
  by (simp add: round_k_bits32)

lemma word32_round_f: "word32 b \<Longrightarrow> word32 c \<Longrightarrow> word32 d \<Longrightarrow> word32 (round_f t b c d)"
  by (elim word32_obtain) (simp add: round_f_bits32)

subsection \<open>The rounds on strings and on words\<close>

lemma regs32_regs_of [simp]: "regs32 (regs_of s)"
  by (cases s) (simp add: regs32_def)

lemma hash32_hash_of [simp]: "hash32 (hash_of s)"
  by (cases s) (simp add: hash32_def)

lemma regs_of_regs_words: "regs32 r \<Longrightarrow> regs_of (regs_words r) = r"
  by (simp add: regs32_def regs_words_def bits32_word_of_bits)

lemma hash_of_hash_words: "hash32 h \<Longrightarrow> hash_of (hash_words h) = h"
  by (simp add: hash32_def hash_words_def bits32_word_of_bits)

lemma regs_words_regs_of [simp]: "regs_words (regs_of s) = s"
  by (cases s) (simp add: regs_words_def)

lemma hash_words_hash_of [simp]: "hash_words (hash_of s) = s"
  by (cases s) (simp add: hash_words_def)

lemma regs_of_inject [simp]: "regs_of s = regs_of s' \<longleftrightarrow> s = s'"
  by (cases s, cases s') simp

lemma hash_of_inject [simp]: "hash_of s = hash_of s' \<longleftrightarrow> s = s'"
  by (cases s, cases s') simp

lemma round_step_word:
  "word_arg words t = bits32 w \<Longrightarrow>
     round_step words t (regs_of (a, b, c, d, e)) =
       Inr (regs_of (word_rotl 5 a + spec_f t b c d + e + spec_k t + w, a, word_rotl 30 b, c, d))"
  by (simp add: round_step_def Let_def round_f_bits32 round_k_bits32 Utils_rotate_bits32
      Utils_add_bits32)

lemma word_arg_bits32: "t < length W \<Longrightarrow> word_arg (map bits32 W) t = bits32 (W ! t)"
  by (simp add: word_arg_def)

lemma round_step_bits32:
  assumes "t < length W"
  shows "round_step (map bits32 W) t (regs_of s) = Inr (regs_of (spec_round W t s))"
proof -
  obtain a b c d e where s: "s = (a, b, c, d, e)" by (cases s)
  show ?thesis
    unfolding s spec_round.simps
    by (rule round_step_word [OF word_arg_bits32 [OF assms]])
qed

lemma round_loop_bits32:
  "n \<le> length W \<Longrightarrow>
     round_loop n (map bits32 W) i (regs_of s) = Inr (regs_of (fold (spec_round W) [i..<n] s))"
proof (induction "n - i" arbitrary: i s)
  case 0
  then have "\<not> i < n" by simp
  then show ?case by (simp add: round_loop.simps)
next
  case (Suc m)
  then have lt: "i < n" by simp
  with Suc.prems have len: "i < length W" by simp
  have m: "m = n - (i + 1)" using Suc.hyps(2) by simp
  have "round_loop n (map bits32 W) i (regs_of s)
      = round_loop n (map bits32 W) (i + 1) (regs_of (spec_round W i s))"
    using lt by (subst round_loop.simps) (simp add: round_step_bits32 [OF len])
  also have "\<dots> = Inr (regs_of (fold (spec_round W) [i + 1..<n] (spec_round W i s)))"
    by (rule Suc.hyps(1) [OF m Suc.prems])
  also have "fold (spec_round W) [i + 1..<n] (spec_round W i s) = fold (spec_round W) [i..<n] s"
    using lt by (simp add: upt_conv_Cons)
  finally show ?case .
qed

lemma rounds_bits32:
  "80 \<le> length W \<Longrightarrow> rounds (map bits32 W) (regs_of s) = Inr (regs_of (spec_rounds 80 W s))"
  by (simp add: rounds_def spec_rounds_def round_loop_bits32)

lemma regs_of_hash_of:
  "\<lparr> reg_a = h0 (hash_of H), reg_b = h1 (hash_of H), reg_c = h2 (hash_of H),
      reg_d = h3 (hash_of H), reg_e = h4 (hash_of H) \<rparr> = regs_of H"
  by (cases H) simp

lemma add_back_bits32:
  "bind_result (Utils_add (h0 (hash_of H)) (reg_a (regs_of R)) 32) (\<lambda>n0.
   bind_result (Utils_add (h1 (hash_of H)) (reg_b (regs_of R)) 32) (\<lambda>n1.
   bind_result (Utils_add (h2 (hash_of H)) (reg_c (regs_of R)) 32) (\<lambda>n2.
   bind_result (Utils_add (h3 (hash_of H)) (reg_d (regs_of R)) 32) (\<lambda>n3.
   bind_result (Utils_add (h4 (hash_of H)) (reg_e (regs_of R)) 32) (\<lambda>n4.
     Inr \<lparr> h0 = n0, h1 = n1, h2 = n2, h3 = n3, h4 = n4 \<rparr>)))))
   = Inr (hash_of (spec_add_state H R))"
  by (cases H, cases R) (simp add: Utils_add_bits32)

lemma process_chunk_bits32:
  "80 \<le> length W \<Longrightarrow>
     process_chunk (hash_of H) (map bits32 W) = Inr (hash_of (spec_compress H W))"
  unfolding process_chunk_def regs_of_hash_of
  by (simp add: rounds_bits32 add_back_bits32 spec_compress_def)

lemma step13_bits32:
  "\<forall>W \<in> set Ws. 80 \<le> length W \<Longrightarrow>
     step13_process (hash_of H) (map (map bits32) Ws) = Inr (hash_of (foldl spec_compress H Ws))"
  by (induction Ws arbitrary: H) (simp_all add: process_chunk_bits32)

subsection \<open>Encoding and padding\<close>

lemma pad_to_8_eq: "pad_to_8 s = Inr (replicate (8 - length s) CHR ''0'' @ s)"
proof (cases "length s < 8")
  case True
  then have "Utils_getStringXTime ''0'' (8 - int (length s)) = Inr (replicate (8 - length s) CHR ''0'')"
    using getStringXTime_zeros [of "8 - int (length s)"] by (simp add: nat_diff_distrib')
  with True show ?thesis by (simp add: pad_to_8_def)
next
  case False
  then show ?thesis by (simp add: pad_to_8_def)
qed

lemma map_result_Inr: "(\<And>x. x \<in> set xs \<Longrightarrow> f x = Inr (g x)) \<Longrightarrow> map_result f xs = Inr (map g xs)"
  by (induction xs) simp_all

lemma step4_eq:
  "step4_ascii_binary_8_length (step3_ascii_binary (step2_to_ascii_code str)) = Inr (map unit_bits str)"
proof -
  have "map_result pad_to_8 (map (\<lambda>c. digits_radix 2 c) str)
      = Inr (map (\<lambda>s. replicate (8 - length s) CHR ''0'' @ s) (map (\<lambda>c. digits_radix 2 c) str))"
    by (rule map_result_Inr) (rule pad_to_8_eq)
  then show ?thesis
    by (simp add: step4_ascii_binary_8_length_def step3_ascii_binary_def step2_to_ascii_code_def
        toString_radix_def unit_bits_def comp_def)
qed

lemma unit_bits_byte: "c < 256 \<Longrightarrow> unit_bits c = fixed_digits 2 8 c"
  using fixed_digits_digits_radix [of 2 c 8] by (simp add: unit_bits_def)

lemma binary_unit_bits [simp]: "binary (unit_bits c)"
  by (simp add: unit_bits_def)

lemma length_unit_bits_le: "c < 65536 \<Longrightarrow> length (unit_bits c) \<le> 16"
  using length_digits2 [of c 16] by (simp add: unit_bits_def)

lemma length_unit_bits_ge: "8 \<le> length (unit_bits c)"
  by (simp add: unit_bits_def)

lemma length_concat_le:
  "(\<And>x. x \<in> set xs \<Longrightarrow> length (f x) \<le> k) \<Longrightarrow> length (concat (map f xs)) \<le> k * length xs"
proof (induction xs)
  case Nil
  show ?case by simp
next
  case (Cons x xs)
  have "length (f x) \<le> k" by (rule Cons.prems) simp
  moreover have "length (concat (map f xs)) \<le> k * length xs"
    by (rule Cons.IH) (simp add: Cons.prems)
  ultimately show ?case by simp
qed

lemma js_string_bit_length:
  assumes "js_string str"
  shows "length (concat (map unit_bits str)) < 2 ^ 64"
proof -
  have "length (concat (map unit_bits str)) \<le> 16 * length str"
    using assms by (intro length_concat_le length_unit_bits_le) (simp add: js_string_def list_all_iff)
  also have "\<dots> < 16 * 2 ^ 53" using assms by (simp add: js_string_def)
  also have "\<dots> < (2::nat) ^ 64" by simp
  finally show ?thesis .
qed

lemma zero_pad_count_less: "zero_pad_count len < 512"
proof -
  define m where "m = len mod 512"
  have "(if m < 448 then 448 - m else if 448 < m then 960 - m else 0) < 512"
    by (simp split: if_splits) linarith+
  then show ?thesis unfolding zero_pad_count_def Let_def m_def .
qed

lemma zero_pad_count_mod: "(len + zero_pad_count len) mod 512 = 448"
proof -
  define q where "q = len div 512"
  define m where "m = len mod 512"
  have len: "len = 512 * q + m" by (simp add: q_def m_def)
  have m: "m < 512" by (simp add: m_def)
  have z: "zero_pad_count len = (if m < 448 then 448 - m else if 448 < m then 960 - m else 0)"
    by (simp add: zero_pad_count_def Let_def m_def)
  show ?thesis
  proof (cases "m < 448")
    case True
    then have "len + zero_pad_count len = 512 * q + 448" unfolding z by (simp add: len)
    also have "\<dots> mod 512 = 448 mod 512" by (simp only: mod_mult_self4)
    finally show ?thesis by simp
  next
    case False
    show ?thesis
    proof (cases "448 < m")
      case True
      then have "len + zero_pad_count len = 512 * (q + 1) + 448" unfolding z using m by (simp add: len)
      also have "\<dots> mod 512 = 448 mod 512" by (simp only: mod_mult_self4)
      finally show ?thesis by simp
    next
      case F: False
      with False have "m = 448" by simp
      then have "len + zero_pad_count len = 512 * q + 448" unfolding z by (simp add: len)
      also have "\<dots> mod 512 = 448 mod 512" by (simp only: mod_mult_self4)
      finally show ?thesis by simp
    qed
  qed
qed

lemma step7_eq:
  "step7_modulo_512_is_448 s = Inr (s @ replicate (zero_pad_count (length s)) CHR ''0'')"
proof -
  let ?m = "length s mod 512"
  have m: "?m < 512" by simp
  show ?thesis
  proof (cases "?m < 448")
    case True
    then have "Utils_getStringXTime ''0'' (448 - int ?m) = Inr (replicate (448 - ?m) CHR ''0'')"
      using getStringXTime_zeros [of "448 - int ?m"] by (simp add: nat_diff_distrib')
    with True show ?thesis
      by (simp add: step7_modulo_512_is_448_def zero_pad_count_def Let_def)
  next
    case False
    show ?thesis
    proof (cases "448 < ?m")
      case True
      have c: "512 - int ?m + 448 = int (960 - ?m)" using m by simp
      have "Utils_getStringXTime ''0'' (int (960 - ?m)) = Inr (replicate (960 - ?m) CHR ''0'')"
        using getStringXTime_zeros [of "int (960 - ?m)"] by simp
      with True False show ?thesis
        by (simp add: step7_modulo_512_is_448_def zero_pad_count_def Let_def c)
    next
      case F: False
      with False show ?thesis
        by (simp add: step7_modulo_512_is_448_def zero_pad_count_def Let_def)
    qed
  qed
qed

lemma step8_eq:
  assumes "length step5 < 2 ^ 64"
  shows "step8_append_step5_length s step5 = Inr (s @ fixed_digits 2 64 (length step5))"
proof -
  let ?d = "digits_radix 2 (length step5)"
  from fixed_digits_digits_radix [of 2 "length step5" 64] assms
  have le: "length ?d \<le> 64"
    and fd: "fixed_digits 2 64 (length step5) = replicate (64 - length ?d) CHR ''0'' @ ?d"
    by simp_all
  have "Utils_getStringXTime ''0'' (64 - int (length ?d)) = Inr (replicate (64 - length ?d) CHR ''0'')"
    using getStringXTime_zeros [of "64 - int (length ?d)"] le by (simp add: nat_diff_distrib')
  then show ?thesis
    by (simp add: step8_append_step5_length_def toString_radix_def Let_def fd)
qed

lemma padded_message_eq:
  assumes "length (concat (map unit_bits str)) < 2 ^ 64"
  shows "padded_message str =
     Inr (concat (map unit_bits str) @ ''1''
          @ replicate (zero_pad_count (length (concat (map unit_bits str)) + 1)) CHR ''0''
          @ fixed_digits 2 64 (length (concat (map unit_bits str))))"
  using assms
  by (simp add: padded_message_def step4_eq step5_combine_str_def step6_append_1_def step7_eq
      step8_eq Let_def)

subsection \<open>Chunks and words\<close>

lemma split_every_exact:
  "0 < n \<Longrightarrow> length s = n * k \<Longrightarrow>
     length (split_every n s) = k \<and> (\<forall>c \<in> set (split_every n s). length c = n)"
proof (induction k arbitrary: s)
  case 0
  then show ?case by (simp add: split_every.simps)
next
  case (Suc k)
  then have pos: "0 < length s" by simp
  have d: "length (drop n s) = n * k" using Suc.prems by simp
  have t: "length (take n s) = n" using Suc.prems by simp
  have e: "split_every n s = take n s # split_every n (drop n s)"
    using pos Suc.prems(1) by (subst split_every.simps) simp
  from Suc.IH [OF Suc.prems(1) d] t show ?case unfolding e by simp
qed

lemma split_every_binary: "binary s \<Longrightarrow> \<forall>c \<in> set (split_every n s). binary c"
proof (induction n s rule: split_every.induct)
  case (1 n str)
  show ?case
  proof (cases "0 < length str \<and> 0 < n")
    case True
    then have e: "split_every n str = take n str # split_every n (drop n str)"
      by (subst split_every.simps) simp
    have "\<forall>c \<in> set (split_every n (drop n str)). binary c"
      using True "1.prems" by (intro "1.IH") (simp_all add: binary_drop)
    then show ?thesis unfolding e using "1.prems" by (simp add: binary_take)
  next
    case False
    then have "split_every n str = []" by (subst split_every.simps) simp
    then show ?thesis by simp
  qed
qed

lemma chunks_of_padded:
  assumes "binary p" and "length p mod 512 = 0"
  shows "\<forall>c \<in> set (step9_split_512b_chunks p). length c = 512 \<and> binary c"
proof -
  from assms(2) have len: "length p = 512 * (length p div 512)" by auto
  from split_every_exact [of 512 p "length p div 512"] len
  have "\<forall>c \<in> set (split_every 512 p). length c = 512" by simp
  with split_every_binary [OF assms(1), of 512] show ?thesis
    by (simp add: step9_split_512b_chunks_def)
qed

lemma words_of_chunk:
  assumes "length c = 512" and "binary c"
  shows "length (split_every 32 c) = 16 \<and> (\<forall>w \<in> set (split_every 32 c). word32 w)"
proof -
  from split_every_exact [of 32 c 16] assms(1)
  have "length (split_every 32 c) = 16 \<and> (\<forall>w \<in> set (split_every 32 c). length w = 32)" by simp
  with split_every_binary [OF assms(2), of 32] show ?thesis by (simp add: word32_def)
qed

lemma map_bits32_word_of_bits: "\<forall>w \<in> set ws. word32 w \<Longrightarrow> map bits32 (map word_of_bits ws) = ws"
  by (induction ws) (simp_all add: bits32_word_of_bits)

lemma step10_blocks:
  assumes "binary p" and "length p mod 512 = 0"
  shows "step10_split_32b_words (step9_split_512b_chunks p) = map (map bits32) (message_blocks p)"
    and "\<forall>B \<in> set (message_blocks p). length B = 16"
proof -
  have w: "\<forall>c \<in> set (step9_split_512b_chunks p).
      length (split_every 32 c) = 16 \<and> (\<forall>w \<in> set (split_every 32 c). word32 w)"
    using chunks_of_padded [OF assms] words_of_chunk by blast
  have "map (map bits32) (message_blocks p)
      = map (\<lambda>c. map bits32 (map word_of_bits (split_every 32 c))) (step9_split_512b_chunks p)"
    by (simp add: message_blocks_def step10_split_32b_words_def comp_def)
  also have "\<dots> = map (split_every 32) (step9_split_512b_chunks p)"
    using w by (intro map_cong refl map_bits32_word_of_bits) blast
  finally show "step10_split_32b_words (step9_split_512b_chunks p) = map (map bits32) (message_blocks p)"
    by (simp add: step10_split_32b_words_def)
  show "\<forall>B \<in> set (message_blocks p). length B = 16"
    using w by (auto simp: message_blocks_def step10_split_32b_words_def)
qed

subsection \<open>The schedule\<close>

lemma word_at_bits32: "i < length W \<Longrightarrow> word_at (map bits32 W) i = Inr (bits32 (W ! i))"
  by (simp add: word_at_def)

lemma extend_words_bits32:
  "16 \<le> length W \<Longrightarrow>
     extend_words (length W) (map bits32 W) = Inr (map bits32 (spec_expand_to 80 W))"
proof (induction "80 - length W" arbitrary: W)
  case 0
  then have "\<not> length W < 80" by simp
  then show ?case
    by (subst extend_words.simps, subst spec_expand_to.simps) (simp add: Let_def)
next
  case (Suc m)
  let ?t = "length W"
  let ?x = "word_rotl 1 (W ! (?t - 3) XOR W ! (?t - 8) XOR W ! (?t - 14) XOR W ! (?t - 16))"
  from Suc.hyps(2) have lt: "?t < 80" by simp
  have m: "m = 80 - length (W @ [?x])" using Suc.hyps(2) by simp
  have len: "16 \<le> length (W @ [?x])" using Suc.prems by simp
  have i: "?t - 3 < ?t" "?t - 8 < ?t" "?t - 14 < ?t" "?t - 16 < ?t" using Suc.prems by simp_all
  have "extend_words ?t (map bits32 W) = extend_words (?t + 1) (map bits32 (W @ [?x]))"
    using lt
    by (subst extend_words.simps)
       (simp add: word_at_bits32 [OF i(1)] word_at_bits32 [OF i(2)] word_at_bits32 [OF i(3)]
          word_at_bits32 [OF i(4)] Utils_xor_bits32 Utils_rotate_bits32 xor.assoc
          del: Utils_rotate.simps)
  also have "\<dots> = extend_words (length (W @ [?x])) (map bits32 (W @ [?x]))" by simp
  also have "\<dots> = Inr (map bits32 (spec_expand_to 80 (W @ [?x])))"
    by (rule Suc.hyps(1) [OF m len])
  also have "spec_expand_to 80 (W @ [?x]) = spec_expand_to 80 W"
    using lt by (subst (2) spec_expand_to.simps) (simp add: Let_def)
  finally show ?case .
qed

lemma length_spec_expand_to: "length W \<le> n \<Longrightarrow> length (spec_expand_to n W) = n"
proof (induction "n - length W" arbitrary: W)
  case 0
  then show ?case by (subst spec_expand_to.simps) (simp add: Let_def)
next
  case (Suc m)
  then have lt: "length W < n" by simp
  let ?x = "word_rotl 1 (W ! (length W - 3) XOR W ! (length W - 8) XOR W ! (length W - 14)
      XOR W ! (length W - 16))"
  have e: "spec_expand_to n W = spec_expand_to n (W @ [?x])"
    using lt by (subst spec_expand_to.simps) (simp add: Let_def)
  have "length (spec_expand_to n (W @ [?x])) = n"
    using Suc.hyps(2) lt by (intro Suc.hyps(1)) simp_all
  then show ?case unfolding e .
qed

lemma length_spec_expand: "length B = 16 \<Longrightarrow> length (spec_expand B) = 80"
  by (simp add: spec_expand_def length_spec_expand_to)

lemma step11_blocks:
  assumes "\<forall>B \<in> set Bs. length B = 16"
  shows "step11_80_words_per_chunk (map (map bits32) Bs) = Inr (map (map bits32) (map spec_expand Bs))"
proof -
  have "map_result (extend_words 16) (map (map bits32) Bs)
      = Inr (map (\<lambda>ws. map bits32 (spec_expand (map word_of_bits ws))) (map (map bits32) Bs))"
  proof (rule map_result_Inr)
    fix ws assume "ws \<in> set (map (map bits32) Bs)"
    then obtain B where B: "B \<in> set Bs" "ws = map bits32 B" by auto
    with assms have len: "length B = 16" by simp
    have "extend_words (length B) (map bits32 B) = Inr (map bits32 (spec_expand_to 80 B))"
      by (rule extend_words_bits32) (simp add: len)
    then show "extend_words 16 ws = Inr (map bits32 (spec_expand (map word_of_bits ws)))"
      by (simp add: B len spec_expand_def comp_def)
  qed
  then show ?thesis
    by (simp add: step11_80_words_per_chunk_def comp_def)
qed

subsection \<open>The finalizer and the whole function\<close>

lemma length_hex8 [simp]: "length (hex8 x) = 8"
  by (simp add: hex8_def)

lemma Utils_binToHex_bits32: "Utils_binToHex (bits32 x) 8 = Inr (hex8 x)"
proof -
  let ?d = "digits_radix 16 (unat x)"
  have "unat x < 2 ^ 32" using unsigned_less [of x, where 'a = nat] by simp
  then have lt: "unat x < 16 ^ 8" by simp
  from fixed_digits_digits_radix [of 16 "unat x" 8] lt
  have le: "length ?d \<le> 8"
    and fd: "fixed_digits 16 8 (unat x) = replicate (8 - length ?d) CHR ''0'' @ ?d"
    by simp_all
  have p: "toString_radix (parseInt2 (bits32 x)) 16 = ?d"
    by (simp add: parseInt2_binary toString_radix_def)
  show ?thesis
  proof (cases "length ?d < 8")
    case True
    then have "Utils_getStringXTime ''0'' (8 - int (length ?d)) = Inr (replicate (8 - length ?d) CHR ''0'')"
      using getStringXTime_zeros [of "8 - int (length ?d)"] by (simp add: nat_diff_distrib')
    with True show ?thesis
      unfolding Utils_binToHex_def p Let_def hex8_def fd by simp
  next
    case False
    with le have "length ?d = 8" by simp
    with False show ?thesis
      unfolding Utils_binToHex_def p Let_def hex8_def fd by simp
  qed
qed

lemma step14_bits32: "step14_finalize (hash_of H) = Inr (spec_finalize_hex H)"
  by (cases H) (simp add: step14_finalize_def Utils_binToHex_bits32)

lemma initial_hash_eq: "initial_hash = hash_of spec_init"
proof -
  have "''01100111010001010010001100000001'' = bits32 0x67452301"
    by (rule bits32_eqI) (simp_all add: word32_def is_bit_def word_of_bits_def bin_value_def bit_val_def)
  moreover have "''11101111110011011010101110001001'' = bits32 0xEFCDAB89"
    by (rule bits32_eqI) (simp_all add: word32_def is_bit_def word_of_bits_def bin_value_def bit_val_def)
  moreover have "''10011000101110101101110011111110'' = bits32 0x98BADCFE"
    by (rule bits32_eqI) (simp_all add: word32_def is_bit_def word_of_bits_def bin_value_def bit_val_def)
  moreover have "''00010000001100100101010001110110'' = bits32 0x10325476"
    by (rule bits32_eqI) (simp_all add: word32_def is_bit_def word_of_bits_def bin_value_def bit_val_def)
  moreover have "''11000011110100101110000111110000'' = bits32 0xC3D2E1F0"
    by (rule bits32_eqI) (simp_all add: word32_def is_bit_def word_of_bits_def bin_value_def bit_val_def)
  ultimately show ?thesis
    unfolding initial_hash_def spec_init_def hash_of.simps by (simp only:)
qed

lemma final_hash_eq:
  assumes "padded_message str = Inr p" and "binary p" and "length p mod 512 = 0"
  shows "final_hash str =
     Inr (hash_of (foldl spec_compress spec_init (map spec_expand (message_blocks p))))"
proof -
  note b = step10_blocks [OF assms(2,3)]
  have len: "\<forall>W \<in> set (map spec_expand (message_blocks p)). 80 \<le> length W"
    using b(2) by (auto simp: length_spec_expand)
  show ?thesis
    unfolding final_hash_def assms(1) bind_result_Inr b(1) step11_blocks [OF b(2)] initial_hash_eq
    by (rule step13_bits32 [OF len])
qed

lemma sha1_eq:
  assumes "padded_message str = Inr p" and "binary p" and "length p mod 512 = 0"
  shows "sha1 str = Inr (spec_digest_hex p)"
  unfolding sha1_def final_hash_eq [OF assms] bind_result_Inr step14_bits32 spec_digest_hex_def ..

subsection \<open>Shape of the padded message\<close>

lemma binary_concat_unit_bits [simp]: "binary (concat (map unit_bits str))"
  by (simp add: binary_concat)

lemma padded_message_shape:
  assumes "length (concat (map unit_bits str)) < 2 ^ 64"
  shows "\<exists>p. padded_message str = Inr p \<and> binary p \<and> length p mod 512 = 0 \<and> 512 \<le> length p"
proof -
  define m where "m = concat (map unit_bits str)"
  define z where "z = zero_pad_count (length m + 1)"
  define p where "p = m @ ''1'' @ replicate z CHR ''0'' @ fixed_digits 2 64 (length m)"
  have pm: "padded_message str = Inr p"
    unfolding p_def z_def m_def by (rule padded_message_eq [OF assms])
  have b: "binary p" by (simp add: p_def m_def is_bit_def)
  have len: "length p = (length m + 1 + z) + 64" by (simp add: p_def)
  have zz: "(length m + 1 + z) mod 512 = 448"
    unfolding z_def by (rule zero_pad_count_mod)
  have "length p mod 512 = ((length m + 1 + z) mod 512 + 64) mod 512"
    unfolding len by (simp only: mod_add_left_eq)
  then have mm: "length p mod 512 = 0" unfolding zz by simp
  have pos: "0 < length p" by (simp add: p_def)
  have ge: "512 \<le> length p"
  proof (rule ccontr)
    assume "\<not> 512 \<le> length p"
    then have "length p < 512" by simp
    then have e: "length p mod 512 = length p" by (rule mod_less)
    have "length p = 0" by (rule trans [OF e [symmetric] mm])
    with pos show False by simp
  qed
  show ?thesis by (intro exI [of _ p] conjI pm b mm ge)
qed

subsection \<open>Evaluating the specification's pipeline\<close>

lemma mask32: "x AND 0xFFFFFFFF = x" for x :: "32 word"
proof -
  have e: "(0xFFFFFFFF :: 32 word) = - 1" by simp
  show ?thesis unfolding e by simp
qed

lemma word_rotl_shift:
  fixes x :: "32 word"
  assumes "0 < n" and "n < 32"
  shows "word_rotl n x = push_bit n x OR drop_bit (32 - n) x"
proof (rule bit_word_eqI)
  fix i assume "i < LENGTH(32)"
  then have i: "i < 32" by simp
  have nm: "n mod 32 = n" using assms by simp
  have L: "bit (word_rotl n x) i = bit x ((i + (32 - n)) mod 32)"
    using i by (simp add: bit_word_rotl_iff nm)
  have P: "bit (push_bit n x) i = (n \<le> i \<and> bit x (i - n))"
    using i by (simp add: bit_push_bit_iff)
  have D: "bit (drop_bit (32 - n) x) i = bit x (32 - n + i)"
    by (simp add: bit_drop_bit_eq)
  show "bit (word_rotl n x) i = bit (push_bit n x OR drop_bit (32 - n) x) i"
  proof (cases "n \<le> i")
    case True
    have e: "i + (32 - n) = 32 + (i - n)" using True assms by simp
    have "(i + (32 - n)) mod 32 = (i - n) mod 32"
      unfolding e by (simp only: mod_add_self1)
    also have "\<dots> = i - n" using i by simp
    finally have m: "(i + (32 - n)) mod 32 = i - n" .
    have "\<not> bit x (32 - n + i)"
    proof
      assume "bit x (32 - n + i)"
      then have "32 - n + i < LENGTH(32)" by (rule bit_imp_le_length)
      with True assms show False by simp
    qed
    with True show ?thesis unfolding bit_or_iff L P D m by simp
  next
    case False
    then have "i + (32 - n) < 32" using assms by simp
    then have m: "(i + (32 - n)) mod 32 = i + (32 - n)" by (rule mod_less)
    from False show ?thesis unfolding bit_or_iff L P D m by (simp add: add.commute)
  qed
qed

lemma spec_expand_to_rev:
  "16 \<le> length W \<Longrightarrow> spec_expand_to (length W + k) W = rev (expand_rev k (rev W))"
proof (induction k arbitrary: W)
  case 0
  show ?case by (subst spec_expand_to.simps) (simp add: Let_def)
next
  case (Suc k)
  let ?t = "length W"
  let ?x = "word_rotl 1 (W ! (?t - 3) XOR W ! (?t - 8) XOR W ! (?t - 14) XOR W ! (?t - 16))"
  have r: "rev W ! 2 = W ! (?t - 3)" "rev W ! 7 = W ! (?t - 8)" "rev W ! 13 = W ! (?t - 14)"
      "rev W ! 15 = W ! (?t - 16)"
    using Suc.prems by (simp_all add: rev_nth)
  have "spec_expand_to (?t + Suc k) W = spec_expand_to (?t + Suc k) (W @ [?x])"
    by (subst spec_expand_to.simps) (simp add: Let_def)
  also have "\<dots> = spec_expand_to (length (W @ [?x]) + k) (W @ [?x])" by simp
  also have "\<dots> = rev (expand_rev k (rev (W @ [?x])))"
    using Suc.prems by (intro Suc.IH) simp
  also have "\<dots> = rev (expand_rev (Suc k) (rev W))" by (simp add: r)
  finally show ?case .
qed

lemma spec_expand_rev: "length B = 16 \<Longrightarrow> spec_expand B = rev (expand_rev 64 (rev B))"
  using spec_expand_to_rev [of B 64] by (simp add: spec_expand_def)

lemma rotl_eval:
  fixes x :: "32 word"
  shows "word_rotl (Suc 0) x = (push_bit 1 x OR drop_bit 31 x) AND 0xFFFFFFFF"
    and "word_rotl 5 x = (push_bit 5 x OR drop_bit 27 x) AND 0xFFFFFFFF"
    and "word_rotl 30 x = (push_bit 30 x OR drop_bit 2 x) AND 0xFFFFFFFF"
  unfolding mask32 by (simp_all add: word_rotl_shift)

lemma expand_rev_numeral:
  "expand_rev (numeral k) R =
     expand_rev (pred_numeral k) (word_rotl 1 (R ! 2 XOR R ! 7 XOR R ! 13 XOR R ! 15) # R)"
  by (simp add: numeral_eq_Suc)

lemma fold_upt_step: "i < n \<Longrightarrow> fold f [i..<n] s = fold f [i + 1..<n] (f i s)"
  by (simp add: upt_conv_Cons)

lemma spec_round_eval:
  "spec_round W t (a, b, c, d, e) =
     ((word_rotl 5 a + spec_f t b c d + e + spec_k t + W ! t) AND 0xFFFFFFFF, a, word_rotl 30 b, c, d)"
  by (simp add: mask32)

lemma fixed_digits_numeral:
  "fixed_digits radix (numeral k) n =
     fixed_digits radix (pred_numeral k) (n div radix) @ [digit_char (n mod radix)]"
  by (simp add: numeral_eq_Suc)

lemma fixed_digits_Suc_0: "fixed_digits radix (Suc 0) n = [digit_char (n mod radix)]"
  by simp

lemma replicate_numeral_unfold: "replicate (numeral k) x = x # replicate (pred_numeral k) x"
  by (simp add: numeral_eq_Suc)

subsection \<open>A padded message given by its blocks\<close>

lemma split_every_concat:
  "0 < n \<Longrightarrow> \<forall>c \<in> set cs. length c = n \<Longrightarrow> split_every n (concat cs) = cs"
proof (induction cs)
  case Nil
  show ?case by (simp add: split_every.simps)
next
  case (Cons c cs)
  then have len: "length c = n" by simp
  have "split_every n (concat (c # cs)) = take n (c @ concat cs) # split_every n (drop n (c @ concat cs))"
    using Cons.prems(1) len by (subst split_every.simps) simp
  also have "\<dots> = c # split_every n (concat cs)" using len by simp
  also have "split_every n (concat cs) = cs" using Cons by simp
  finally show ?case .
qed

lemma length_concat_bits32: "length (concat (map bits32 B)) = 32 * length B"
  by (induction B) simp_all

lemma binary_concat_bits32: "binary (concat (map bits32 B))"
  by (simp add: binary_concat)

lemma length_concat_blocks:
  "\<forall>B \<in> set Bs. length B = 16 \<Longrightarrow>
     length (concat (map (\<lambda>B. concat (map bits32 B)) Bs)) = 512 * length Bs"
  by (induction Bs) (simp_all add: length_concat_bits32)

lemma message_blocks_concat:
  assumes "\<forall>B \<in> set Bs. length B = 16"
  shows "message_blocks (concat (map (\<lambda>B. concat (map bits32 B)) Bs)) = Bs"
proof -
  have c: "split_every 512 (concat (map (\<lambda>B. concat (map bits32 B)) Bs))
      = map (\<lambda>B. concat (map bits32 B)) Bs"
    using assms by (intro split_every_concat) (auto simp: length_concat_bits32)
  have w: "split_every 32 (concat (map bits32 B)) = map bits32 B" for B
    by (rule split_every_concat) simp_all
  have "map word_of_bits (map bits32 B) = B" for B
    by (induction B) simp_all
  then show ?thesis
    by (simp add: message_blocks_def step9_split_512b_chunks_def step10_split_32b_words_def c w
        comp_def)
qed

lemma sha1_blocks:
  assumes "padded_message str = Inr (concat (map (\<lambda>B. concat (map bits32 B)) Bs))"
    and "\<forall>B \<in> set Bs. length B = 16"
  shows "sha1 str = Inr (spec_finalize_hex (foldl spec_compress spec_init (map spec_expand Bs)))"
proof -
  define p where "p = concat (map (\<lambda>B. concat (map bits32 B)) Bs)"
  have b: "binary p" by (simp add: p_def binary_concat)
  have "length p = 512 * length Bs"
    unfolding p_def by (rule length_concat_blocks [OF assms(2)])
  then have m: "length p mod 512 = 0" by simp
  have pm: "padded_message str = Inr p" unfolding p_def by (rule assms(1))
  have s: "sha1 str = Inr (spec_digest_hex p)" by (rule sha1_eq [OF pm b m])
  have mb: "message_blocks p = Bs" unfolding p_def by (rule message_blocks_concat [OF assms(2)])
  show ?thesis unfolding s spec_digest_hex_def mb ..
qed

subsection \<open>Sums modulo \<open>2 ^ 32\<close>\<close>

lemma unat_add32: "unat (x + y) = (unat x + unat y) mod 2 ^ 32" for x y :: "32 word"
  by (simp add: unat_word_ariths)

lemma unat_sum5:
  fixes x1 x2 x3 x4 x5 :: "32 word"
  shows "unat (x1 + x2 + x3 + x4 + x5) = (unat x1 + unat x2 + unat x3 + unat x4 + unat x5) mod 2 ^ 32"
proof -
  have e: "x1 + x2 + x3 + x4 + x5 = word_of_nat (unat x1 + unat x2 + unat x3 + unat x4 + unat x5)"
    by simp
  show ?thesis unfolding e by (simp only: unat_of_nat len_of_numeral_defs) simp
qed

lemma Utils_add_mod:
  assumes "word32 w1" and "word32 w2"
  shows "\<exists>r. Utils_add w1 w2 32 = Inr r \<and> word32 r
           \<and> bin_value r = (bin_value w1 + bin_value w2) mod 2 ^ 32"
proof -
  from assms have ne: "w1 \<noteq> []" "w2 \<noteq> []" and b: "binary w1" "binary w2"
    by (auto simp: word32_def)
  have "Utils_add w1 w2 32 = Inr (fixed_digits 2 32 (bin_value w1 + bin_value w2))"
    by (rule Utils_add_32 [OF b(1) ne(1) b(2) ne(2)])
  then show ?thesis
    by (simp add: word32_def bin_value_fixed_digits)
qed

lemma regs32_obtain:
  assumes "regs32 r"
  obtains a b c d e where "r = regs_of (a, b, c, d, e)"
proof -
  obtain a b c d e where "regs_words r = (a, b, c, d, e)" by (cases "regs_words r")
  then have "r = regs_of (a, b, c, d, e)"
    using regs_of_regs_words [OF assms] by simp
  then show ?thesis by (rule that)
qed

lemma hash32_obtain:
  assumes "hash32 h"
  obtains x0 x1 x2 x3 x4 where "h = hash_of (x0, x1, x2, x3, x4)"
proof -
  obtain x0 x1 x2 x3 x4 where "hash_words h = (x0, x1, x2, x3, x4)" by (cases "hash_words h")
  then have "h = hash_of (x0, x1, x2, x3, x4)"
    using hash_of_hash_words [OF assms] by simp
  then show ?thesis by (rule that)
qed

lemma words32_obtain:
  assumes "\<forall>w \<in> set words. word32 w"
  obtains W where "words = map bits32 W"
  using map_bits32_word_of_bits [OF assms] by metis

lemma round_step_sum:
  assumes "regs32 r" and "t < length words" and "word32 (words ! t)"
  shows "\<exists>r'. round_step words t r = Inr r' \<and> regs32 r'
    \<and> bin_value (reg_a r') =
        (bin_value (Utils_rotate (reg_a r) 5) + bin_value (round_f t (reg_b r) (reg_c r) (reg_d r))
          + bin_value (reg_e r) + bin_value (round_k t) + bin_value (words ! t)) mod 2 ^ 32"
proof -
  from assms(1) obtain a b c d e where r: "r = regs_of (a, b, c, d, e)" by (rule regs32_obtain)
  from assms(3) obtain w where w: "words ! t = bits32 w" by (rule word32_obtain)
  have wa: "word_arg words t = bits32 w" using assms(2) w by (simp add: word_arg_def)
  let ?S = "word_rotl 5 a + spec_f t b c d + e + spec_k t + w"
  define r' where "r' = regs_of (?S, a, word_rotl 30 b, c, d)"
  have step: "round_step words t r = Inr r'"
    unfolding r r'_def by (rule round_step_word [OF wa])
  have r32: "regs32 r'" unfolding r'_def by (rule regs32_regs_of)
  have "bin_value (reg_a r') = unat ?S" by (simp add: r'_def)
  also have "\<dots> = (unat (word_rotl 5 a) + unat (spec_f t b c d) + unat e + unat (spec_k t) + unat w)
      mod 2 ^ 32"
    by (rule unat_sum5)
  also have "unat (word_rotl 5 a) = bin_value (Utils_rotate (reg_a r) 5)"
    by (simp add: r Utils_rotate_bits32 del: Utils_rotate.simps)
  also have "unat (spec_f t b c d) = bin_value (round_f t (reg_b r) (reg_c r) (reg_d r))"
    by (simp add: r round_f_bits32)
  also have "unat e = bin_value (reg_e r)" by (simp add: r)
  also have "unat (spec_k t) = bin_value (round_k t)" by (simp add: round_k_bits32)
  also have "unat w = bin_value (words ! t)" by (simp add: w)
  finally have v: "bin_value (reg_a r') =
        (bin_value (Utils_rotate (reg_a r) 5) + bin_value (round_f t (reg_b r) (reg_c r) (reg_d r))
          + bin_value (reg_e r) + bin_value (round_k t) + bin_value (words ! t)) mod 2 ^ 32" .
  show ?thesis by (intro exI [of _ r'] conjI step r32 v)
qed

lemma process_chunk_sums:
  assumes "hash32 h" and "80 \<le> length words" and "\<forall>w \<in> set words. word32 w"
  shows "\<exists>r h'. rounds words \<lparr> reg_a = h0 h, reg_b = h1 h, reg_c = h2 h, reg_d = h3 h, reg_e = h4 h \<rparr> = Inr r
    \<and> regs32 r \<and> process_chunk h words = Inr h' \<and> hash32 h'
    \<and> bin_value (h0 h') = (bin_value (h0 h) + bin_value (reg_a r)) mod 2 ^ 32
    \<and> bin_value (h1 h') = (bin_value (h1 h) + bin_value (reg_b r)) mod 2 ^ 32
    \<and> bin_value (h2 h') = (bin_value (h2 h) + bin_value (reg_c r)) mod 2 ^ 32
    \<and> bin_value (h3 h') = (bin_value (h3 h) + bin_value (reg_d r)) mod 2 ^ 32
    \<and> bin_value (h4 h') = (bin_value (h4 h) + bin_value (reg_e r)) mod 2 ^ 32"
proof -
  from assms(1) obtain x0 x1 x2 x3 x4 where h: "h = hash_of (x0, x1, x2, x3, x4)"
    by (rule hash32_obtain)
  from assms(3) obtain W where W: "words = map bits32 W" by (rule words32_obtain)
  have len: "80 \<le> length W" using assms(2) W by simp
  obtain a b c d e where R: "spec_rounds 80 W (x0, x1, x2, x3, x4) = (a, b, c, d, e)"
    by (cases "spec_rounds 80 W (x0, x1, x2, x3, x4)")
  have 1: "rounds words \<lparr> reg_a = h0 h, reg_b = h1 h, reg_c = h2 h, reg_d = h3 h, reg_e = h4 h \<rparr>
      = Inr (regs_of (a, b, c, d, e))"
    unfolding h regs_of_hash_of W rounds_bits32 [OF len] R ..
  have 2: "process_chunk h words = Inr (hash_of (x0 + a, x1 + b, x2 + c, x3 + d, x4 + e))"
    unfolding h W process_chunk_bits32 [OF len] spec_compress_def R by simp
  have 3: "regs32 (regs_of (a, b, c, d, e))" by (rule regs32_regs_of)
  have 4: "hash32 (hash_of (x0 + a, x1 + b, x2 + c, x3 + d, x4 + e))" by (rule hash32_hash_of)
  have 5: "bin_value (bits32 (x + y)) = (bin_value (bits32 x) + bin_value (bits32 y)) mod 2 ^ 32"
    for x y :: "32 word"
    by (simp add: unat_add32)
  show ?thesis
    by (intro exI [of _ "regs_of (a, b, c, d, e)"]
          exI [of _ "hash_of (x0 + a, x1 + b, x2 + c, x3 + d, x4 + e)"] conjI 1 2 3 4)
       (simp_all add: h 5 del: bin_value_bits32)
qed

subsection \<open>Bytes, padding and the length field\<close>

lemma length_concat_const:
  "(\<And>x. x \<in> set xs \<Longrightarrow> length (f x) = k) \<Longrightarrow> length (concat (map f xs)) = k * length xs"
  by (induction xs) simp_all

lemma unit_bits_of_byte:
  assumes "c < 256"
  shows "length (unit_bits c) = 8" and "bin_value (unit_bits c) = c"
proof -
  have u: "unit_bits c = fixed_digits 2 8 c" by (rule unit_bits_byte [OF assms])
  show "length (unit_bits c) = 8" unfolding u by simp
  have "bin_value (unit_bits c) = c mod 2 ^ 8" unfolding u by (rule bin_value_fixed_digits)
  also have "\<dots> = c" using assms by simp
  finally show "bin_value (unit_bits c) = c" .
qed

lemma unit_bits_wide:
  assumes "256 \<le> c"
  shows "8 < length (unit_bits c)"
proof (rule ccontr)
  assume "\<not> 8 < length (unit_bits c)"
  then have le: "length (digits_radix 2 c) \<le> 8" by (simp add: unit_bits_def)
  have "c < 2 ^ length (digits_radix 2 c)"
    using bin_value_less [of "digits_radix 2 c"] by simp
  also have "\<dots> \<le> 2 ^ 8" using le by (intro power_increasing) simp_all
  finally show False using assms by simp
qed

lemma bytes_encoding:
  assumes "list_all (\<lambda>c. c < 256) str"
  shows "\<exists>groups. step4_ascii_binary_8_length (step3_ascii_binary (step2_to_ascii_code str)) = Inr groups
     \<and> length groups = length str
     \<and> (\<forall>i<length str. length (groups ! i) = 8 \<and> binary (groups ! i) \<and> bin_value (groups ! i) = str ! i)
     \<and> step5_combine_str groups = concat groups
     \<and> length (step5_combine_str groups) = 8 * length str"
proof -
  have c: "\<And>x. x \<in> set str \<Longrightarrow> x < 256" using assms by (simp add: list_all_iff)
  have 1: "step4_ascii_binary_8_length (step3_ascii_binary (step2_to_ascii_code str)) = Inr (map unit_bits str)"
    by (rule step4_eq)
  have 2: "length (map unit_bits str) = length str" by simp
  have 3: "\<forall>i<length str. length (map unit_bits str ! i) = 8 \<and> binary (map unit_bits str ! i)
      \<and> bin_value (map unit_bits str ! i) = str ! i"
    using c by (simp add: unit_bits_of_byte)
  have 4: "step5_combine_str (map unit_bits str) = concat (map unit_bits str)"
    by (simp add: step5_combine_str_def)
  have 5: "length (step5_combine_str (map unit_bits str)) = 8 * length str"
    unfolding 4 using c by (intro length_concat_const unit_bits_of_byte(1))
  show ?thesis by (intro exI [of _ "map unit_bits str"] conjI 1 2 3 4 5)
qed

lemma padded_message_js_string:
  assumes "js_string str"
  shows "\<exists>p. padded_message str = Inr p \<and> binary p \<and> length p mod 512 = 0 \<and> 512 \<le> length p"
  by (rule padded_message_shape [OF js_string_bit_length [OF assms]])

lemma padded_message_empty:
  "padded_message [] = Inr (''1'' @ replicate 447 CHR ''0'' @ replicate 64 CHR ''0'')"
  by (simp add: padded_message_eq zero_pad_count_def fixed_digits_0)

lemma drop_append_suffix: "drop (length (xs @ ys) - length ys) (xs @ ys) = ys"
  by simp

lemma length_field:
  assumes "step4_ascii_binary_8_length (step3_ascii_binary (step2_to_ascii_code str)) = Inr groups"
    and "length (step5_combine_str groups) < 2 ^ 64"
  shows "\<exists>p. padded_message str = Inr p \<and> 64 \<le> length p
          \<and> drop (length p - 64) p = fixed_digits 2 64 (length (step5_combine_str groups))
          \<and> binary (drop (length p - 64) p) \<and> length (drop (length p - 64) p) = 64
          \<and> bin_value (drop (length p - 64) p) = length (step5_combine_str groups)"
proof -
  from assms(1) have g: "groups = map unit_bits str" by (simp add: step4_eq)
  define m where "m = concat (map unit_bits str)"
  have L: "length (step5_combine_str groups) = length m"
    by (simp add: g step5_combine_str_def m_def)
  have lt: "length m < 2 ^ 64" using assms(2) unfolding L .
  define pre where "pre = m @ ''1'' @ replicate (zero_pad_count (length m + 1)) CHR ''0''"
  define fd where "fd = fixed_digits 2 64 (length m)"
  define p where "p = pre @ fd"
  have lf: "length fd = 64" by (simp add: fd_def)
  have pm: "padded_message str = Inr p"
    using padded_message_eq [of str] lt by (simp add: p_def pre_def fd_def m_def)
  have d: "drop (length p - 64) p = fd"
    using drop_append_suffix [of pre fd] by (simp add: p_def lf)
  have 1: "64 \<le> length p" by (simp add: p_def lf)
  have 2: "binary fd" by (simp add: fd_def)
  have "bin_value fd = length m mod 2 ^ 64" unfolding fd_def by (rule bin_value_fixed_digits)
  also have "\<dots> = length m" using lt by simp
  finally have 3: "bin_value fd = length m" .
  show ?thesis
    unfolding L
    by (intro exI [of _ p] conjI pm 1) (simp_all only: d lf 2 3 fd_def [symmetric])
qed

section \<open>The claims\<close>

text \<open>
  Claim C2. In rounds 40 to 59 the round function of the program, applied to three 32-bit
  registers, is the majority function \<open>(b AND c) OR (b AND d) OR (c AND d)\<close>, both as
  the program's own string operations and as 32-bit words, and the round constant is
  \<open>0x8F1BBCDC\<close>. (The program writes the function with XOR in place of OR.)
\<close>

theorem round_40_59_is_majority:
  assumes "40 \<le> t" and "t < 60" and "word32 b" and "word32 c" and "word32 d"
  shows "round_f t b c d = Utils_or (Utils_or (Utils_and b c) (Utils_and b d)) (Utils_and c d)
       \<and> word_of_bits (round_f t b c d) =
           (word_of_bits b AND word_of_bits c) OR (word_of_bits b AND word_of_bits d)
             OR (word_of_bits c AND word_of_bits d)
       \<and> round_k t = ''10001111000110111011110011011100''
       \<and> word_of_bits (round_k t) = 0x8F1BBCDC"
proof -
  from assms(3) obtain x where x: "b = bits32 x" by (rule word32_obtain)
  from assms(4) obtain y where y: "c = bits32 y" by (rule word32_obtain)
  from assms(5) obtain z where z: "d = bits32 z" by (rule word32_obtain)
  have f: "spec_f t x y z = (x AND y) OR (x AND z) OR (y AND z)"
    using assms(1,2) by (simp add: spec_f_def)
  have k: "spec_k t = 0x8F1BBCDC"
    using assms(1,2) by (simp add: spec_k_def)
  have 1: "round_f t b c d = bits32 ((x AND y) OR (x AND z) OR (y AND z))"
    unfolding x y z round_f_bits32 f ..
  have 2: "Utils_or (Utils_or (Utils_and b c) (Utils_and b d)) (Utils_and c d)
      = bits32 ((x AND y) OR (x AND z) OR (y AND z))"
    unfolding x y z by (simp add: Utils_and_bits32 Utils_or_bits32 or.assoc)
  have 3: "round_k t = ''10001111000110111011110011011100''"
    using assms(1,2) by (simp add: round_k_def)
  have 4: "word_of_bits (round_k t) = 0x8F1BBCDC"
    unfolding round_k_bits32 k by simp
  show ?thesis
    unfolding 1 2 using 3 4 by (simp add: x y z)
qed

theorem round_40_59_is_majority_witness:
  "40 \<le> (40::nat) \<and> (40::nat) < 60
   \<and> word32 (h1 initial_hash) \<and> word32 (h2 initial_hash) \<and> word32 (h3 initial_hash)
   \<and> round_f 40 (h1 initial_hash) (h2 initial_hash) (h3 initial_hash) =
         Utils_or (Utils_or (Utils_and (h1 initial_hash) (h2 initial_hash))
                            (Utils_and (h1 initial_hash) (h3 initial_hash)))
                  (Utils_and (h2 initial_hash) (h3 initial_hash))
   \<and> word_of_bits (round_k 40) = 0x8F1BBCDC"
proof -
  have b: "word32 (h1 initial_hash)"
    by (simp add: initial_hash_def word32_def binary_def is_bit_def)
  have c: "word32 (h2 initial_hash)"
    by (simp add: initial_hash_def word32_def binary_def is_bit_def)
  have d: "word32 (h3 initial_hash)"
    by (simp add: initial_hash_def word32_def binary_def is_bit_def)
  have t1: "40 \<le> (40::nat)" and t2: "(40::nat) < 60" by simp_all
  from round_40_59_is_majority [OF t1 t2 b c d] t1 t2 b c d show ?thesis by blast
qed


lemma sha1_empty_value: "sha1 [] = Inr ''da39a3ee5e6b4b0d3255bfef95601890afd80709''"
proof -
  have pm: "padded_message [] =
      Inr (concat (map (\<lambda>B. concat (map bits32 B))
        [[0x80000000, 0, 0, 0, 0, 0, 0, 0, 0, 0, 0, 0, 0, 0, 0, 0]]))"
    by (simp add: padded_message_eq unit_bits_byte zero_pad_count_def fixed_digits_0 bits32_def
        fixed_digits_numeral fixed_digits_Suc_0 digit_char_def replicate_numeral_unfold
        del: fixed_digits.simps)
  have s: "sha1 [] = Inr (spec_finalize_hex (foldl spec_compress spec_init (map spec_expand
      [[0x80000000, 0, 0, 0, 0, 0, 0, 0, 0, 0, 0, 0, 0, 0, 0, 0]])))"
    by (rule sha1_blocks [OF pm]) simp
  show ?thesis
    unfolding s
    by (simp add: spec_expand_rev expand_rev_numeral rotl_eval spec_compress_def spec_rounds_def
        fold_upt_step spec_init_def spec_round_eval spec_f_def spec_k_def hex8_def fixed_digits_numeral
        fixed_digits_Suc_0 digit_char_def del: spec_round.simps fixed_digits.simps)
qed

lemma sha1_hello_world_value:
  "sha1 (code_units ''Hello World'') = Inr ''0a4d55a8d778e5022fab701977c5d840bbc486d0''"
proof -
  have pm: "padded_message (code_units ''Hello World'') =
      Inr (concat (map (\<lambda>B. concat (map bits32 B))
        [[0x48656c6c, 0x6f20576f, 0x726c6480, 0, 0, 0, 0, 0, 0, 0, 0, 0, 0, 0, 0, 0x58]]))"
    by (simp add: code_units_def padded_message_eq unit_bits_byte zero_pad_count_def fixed_digits_0 bits32_def
        fixed_digits_numeral fixed_digits_Suc_0 digit_char_def replicate_numeral_unfold
        del: fixed_digits.simps)
  have s: "sha1 (code_units ''Hello World'') =
      Inr (spec_finalize_hex (foldl spec_compress spec_init (map spec_expand
        [[0x48656c6c, 0x6f20576f, 0x726c6480, 0, 0, 0, 0, 0, 0, 0, 0, 0, 0, 0, 0, 0x58]])))"
    by (rule sha1_blocks [OF pm]) simp
  show ?thesis
    unfolding s
    by (simp add: spec_expand_rev expand_rev_numeral rotl_eval spec_compress_def spec_rounds_def
        fold_upt_step spec_init_def spec_round_eval spec_f_def spec_k_def hex8_def fixed_digits_numeral
        fixed_digits_Suc_0 digit_char_def del: spec_round.simps fixed_digits.simps)
qed

text \<open>
  Claim C5. \<open>sha1\<close> of the empty input returns
  \<open>da39a3ee5e6b4b0d3255bfef95601890afd80709\<close>.
\<close>

theorem sha1_empty: "sha1 [] = Inr ''da39a3ee5e6b4b0d3255bfef95601890afd80709''"
  by (rule sha1_empty_value)

text \<open>
  Claim C1, as stated: \<open>sha1\<close> of \<open>Hello World\<close> returns the 39-character string
  \<open>0a4d55a8d778e5022fab701977c5d840bbc486d\<close>. The program does not: it returns 40
  characters.
\<close>

theorem sha1_hello_world_counterexample:
  "sha1 (code_units ''Hello World'') \<noteq> Inr ''0a4d55a8d778e5022fab701977c5d840bbc486d''"
  using sha1_hello_world_value by simp

text \<open>
  Claim C1, amended: \<open>sha1\<close> of \<open>Hello World\<close> returns
  \<open>0a4d55a8d778e5022fab701977c5d840bbc486d0\<close>, the SHA-1 digest of that input.
\<close>

theorem sha1_hello_world:
  "sha1 (code_units ''Hello World'') = Inr ''0a4d55a8d778e5022fab701977c5d840bbc486d0''"
  by (rule sha1_hello_world_value)


text \<open>
  Claim C8. Every addition of the compression function is an addition modulo \<open>2 ^ 32\<close>
  that never fails: \<open>Utils.add\<close> on two 32-character binary strings with target length
  32 returns the 32-character binary string whose value is the sum of the values modulo
  \<open>2 ^ 32\<close>; in a round, the new register \<open>a\<close> has the value of
  \<open>rotate(a, 5) + f + e + k + words[t]\<close> modulo \<open>2 ^ 32\<close>; and after the 80 rounds
  each hash register becomes its old value plus the working register, modulo \<open>2 ^ 32\<close>.
\<close>

theorem additions_wrap_modulo_2_32:
  "(word32 w1 \<and> word32 w2 \<longrightarrow>
      (\<exists>r. Utils_add w1 w2 32 = Inr r \<and> word32 r
         \<and> bin_value r = (bin_value w1 + bin_value w2) mod 2 ^ 32))
   \<and> (regs32 r \<and> t < length words \<and> word32 (words ! t) \<longrightarrow>
      (\<exists>r'. round_step words t r = Inr r' \<and> regs32 r'
         \<and> bin_value (reg_a r') =
             (bin_value (Utils_rotate (reg_a r) 5)
               + bin_value (round_f t (reg_b r) (reg_c r) (reg_d r))
               + bin_value (reg_e r) + bin_value (round_k t) + bin_value (words ! t)) mod 2 ^ 32))
   \<and> (hash32 h \<and> 80 \<le> length chunk \<and> list_all word32 chunk \<longrightarrow>
      (\<exists>r h'. rounds chunk \<lparr> reg_a = h0 h, reg_b = h1 h, reg_c = h2 h, reg_d = h3 h, reg_e = h4 h \<rparr> = Inr r
         \<and> regs32 r \<and> process_chunk h chunk = Inr h' \<and> hash32 h'
         \<and> bin_value (h0 h') = (bin_value (h0 h) + bin_value (reg_a r)) mod 2 ^ 32
         \<and> bin_value (h1 h') = (bin_value (h1 h) + bin_value (reg_b r)) mod 2 ^ 32
         \<and> bin_value (h2 h') = (bin_value (h2 h) + bin_value (reg_c r)) mod 2 ^ 32
         \<and> bin_value (h3 h') = (bin_value (h3 h) + bin_value (reg_d r)) mod 2 ^ 32
         \<and> bin_value (h4 h') = (bin_value (h4 h) + bin_value (reg_e r)) mod 2 ^ 32))"
proof (intro conjI impI)
  assume "word32 w1 \<and> word32 w2"
  then show "\<exists>r. Utils_add w1 w2 32 = Inr r \<and> word32 r
         \<and> bin_value r = (bin_value w1 + bin_value w2) mod 2 ^ 32"
    using Utils_add_mod [of w1 w2] by (elim conjE)
next
  assume "regs32 r \<and> t < length words \<and> word32 (words ! t)"
  then show "\<exists>r'. round_step words t r = Inr r' \<and> regs32 r'
         \<and> bin_value (reg_a r') =
             (bin_value (Utils_rotate (reg_a r) 5)
               + bin_value (round_f t (reg_b r) (reg_c r) (reg_d r))
               + bin_value (reg_e r) + bin_value (round_k t) + bin_value (words ! t)) mod 2 ^ 32"
    using round_step_sum [of r t words] by (elim conjE)
next
  assume a: "hash32 h \<and> 80 \<le> length chunk \<and> list_all word32 chunk"
  then have "\<forall>w \<in> set chunk. word32 w" by (simp add: list_all_iff)
  with a show "\<exists>r h'. rounds chunk \<lparr> reg_a = h0 h, reg_b = h1 h, reg_c = h2 h, reg_d = h3 h, reg_e = h4 h \<rparr> = Inr r
         \<and> regs32 r \<and> process_chunk h chunk = Inr h' \<and> hash32 h'
         \<and> bin_value (h0 h') = (bin_value (h0 h) + bin_value (reg_a r)) mod 2 ^ 32
         \<and> bin_value (h1 h') = (bin_value (h1 h) + bin_value (reg_b r)) mod 2 ^ 32
         \<and> bin_value (h2 h') = (bin_value (h2 h) + bin_value (reg_c r)) mod 2 ^ 32
         \<and> bin_value (h3 h') = (bin_value (h3 h) + bin_value (reg_d r)) mod 2 ^ 32
         \<and> bin_value (h4 h') = (bin_value (h4 h) + bin_value (reg_e r)) mod 2 ^ 32"
    using process_chunk_sums [of h chunk] by (elim conjE)
qed

theorem additions_wrap_modulo_2_32_witness:
  "(word32 (h0 initial_hash) \<and> word32 (h1 initial_hash))
   \<and> (\<exists>r. Utils_add (h0 initial_hash) (h1 initial_hash) 32 = Inr r \<and> word32 r
         \<and> bin_value r = (bin_value (h0 initial_hash) + bin_value (h1 initial_hash)) mod 2 ^ 32)
   \<and> (regs32 \<lparr> reg_a = h0 initial_hash, reg_b = h1 initial_hash, reg_c = h2 initial_hash,
         reg_d = h3 initial_hash, reg_e = h4 initial_hash \<rparr> \<and> 0 < length (replicate 80 (h0 initial_hash)) \<and> word32 ((replicate 80 (h0 initial_hash)) ! 0))
   \<and> (\<exists>r'. round_step (replicate 80 (h0 initial_hash)) 0 \<lparr> reg_a = h0 initial_hash, reg_b = h1 initial_hash, reg_c = h2 initial_hash,
         reg_d = h3 initial_hash, reg_e = h4 initial_hash \<rparr> = Inr r' \<and> regs32 r'
         \<and> bin_value (reg_a r') =
             (bin_value (Utils_rotate (reg_a \<lparr> reg_a = h0 initial_hash, reg_b = h1 initial_hash, reg_c = h2 initial_hash,
         reg_d = h3 initial_hash, reg_e = h4 initial_hash \<rparr>) 5)
               + bin_value (round_f 0 (reg_b \<lparr> reg_a = h0 initial_hash, reg_b = h1 initial_hash, reg_c = h2 initial_hash,
         reg_d = h3 initial_hash, reg_e = h4 initial_hash \<rparr>) (reg_c \<lparr> reg_a = h0 initial_hash, reg_b = h1 initial_hash, reg_c = h2 initial_hash,
         reg_d = h3 initial_hash, reg_e = h4 initial_hash \<rparr>) (reg_d \<lparr> reg_a = h0 initial_hash, reg_b = h1 initial_hash, reg_c = h2 initial_hash,
         reg_d = h3 initial_hash, reg_e = h4 initial_hash \<rparr>))
               + bin_value (reg_e \<lparr> reg_a = h0 initial_hash, reg_b = h1 initial_hash, reg_c = h2 initial_hash,
         reg_d = h3 initial_hash, reg_e = h4 initial_hash \<rparr>) + bin_value (round_k 0) + bin_value ((replicate 80 (h0 initial_hash)) ! 0)) mod 2 ^ 32)
   \<and> (hash32 initial_hash \<and> 80 \<le> length (replicate 80 (h0 initial_hash)) \<and> list_all word32 (replicate 80 (h0 initial_hash)))
   \<and> (\<exists>r h'. rounds (replicate 80 (h0 initial_hash)) \<lparr> reg_a = h0 initial_hash, reg_b = h1 initial_hash, reg_c = h2 initial_hash, reg_d = h3 initial_hash, reg_e = h4 initial_hash \<rparr> = Inr r
         \<and> regs32 r \<and> process_chunk initial_hash (replicate 80 (h0 initial_hash)) = Inr h' \<and> hash32 h'
         \<and> bin_value (h0 h') = (bin_value (h0 initial_hash) + bin_value (reg_a r)) mod 2 ^ 32
         \<and> bin_value (h1 h') = (bin_value (h1 initial_hash) + bin_value (reg_b r)) mod 2 ^ 32
         \<and> bin_value (h2 h') = (bin_value (h2 initial_hash) + bin_value (reg_c r)) mod 2 ^ 32
         \<and> bin_value (h3 h') = (bin_value (h3 initial_hash) + bin_value (reg_d r)) mod 2 ^ 32
         \<and> bin_value (h4 h') = (bin_value (h4 initial_hash) + bin_value (reg_e r)) mod 2 ^ 32)"
proof -
  have h: "hash32 initial_hash" unfolding initial_hash_eq by (rule hash32_hash_of)
  then have w: "word32 (h0 initial_hash)" "word32 (h1 initial_hash)" "word32 (h2 initial_hash)"
      "word32 (h3 initial_hash)" "word32 (h4 initial_hash)"
    by (simp_all add: hash32_def)
  have p1: "word32 (h0 initial_hash) \<and> word32 (h1 initial_hash)" by (intro conjI w)
  have p2: "regs32 \<lparr> reg_a = h0 initial_hash, reg_b = h1 initial_hash, reg_c = h2 initial_hash,
         reg_d = h3 initial_hash, reg_e = h4 initial_hash \<rparr> \<and> 0 < length (replicate 80 (h0 initial_hash)) \<and> word32 ((replicate 80 (h0 initial_hash)) ! 0)"
    using w by (simp add: regs32_def)
  have p3: "hash32 initial_hash \<and> 80 \<le> length (replicate 80 (h0 initial_hash)) \<and> list_all word32 (replicate 80 (h0 initial_hash))"
    using h w(1) by (simp add: list_all_iff)
  note T = additions_wrap_modulo_2_32 [of "h0 initial_hash" "h1 initial_hash"
      "\<lparr> reg_a = h0 initial_hash, reg_b = h1 initial_hash, reg_c = h2 initial_hash,
         reg_d = h3 initial_hash, reg_e = h4 initial_hash \<rparr>" 0
      "replicate 80 (h0 initial_hash)" initial_hash "replicate 80 (h0 initial_hash)"]
  have c1: "(\<exists>r. Utils_add (h0 initial_hash) (h1 initial_hash) 32 = Inr r \<and> word32 r
         \<and> bin_value r = (bin_value (h0 initial_hash) + bin_value (h1 initial_hash)) mod 2 ^ 32)"
    by (rule mp [OF conjunct1 [OF T] p1])
  have c2: "(\<exists>r'. round_step (replicate 80 (h0 initial_hash)) 0 \<lparr> reg_a = h0 initial_hash, reg_b = h1 initial_hash, reg_c = h2 initial_hash,
         reg_d = h3 initial_hash, reg_e = h4 initial_hash \<rparr> = Inr r' \<and> regs32 r'
         \<and> bin_value (reg_a r') =
             (bin_value (Utils_rotate (reg_a \<lparr> reg_a = h0 initial_hash, reg_b = h1 initial_hash, reg_c = h2 initial_hash,
         reg_d = h3 initial_hash, reg_e = h4 initial_hash \<rparr>) 5)
               + bin_value (round_f 0 (reg_b \<lparr> reg_a = h0 initial_hash, reg_b = h1 initial_hash, reg_c = h2 initial_hash,
         reg_d = h3 initial_hash, reg_e = h4 initial_hash \<rparr>) (reg_c \<lparr> reg_a = h0 initial_hash, reg_b = h1 initial_hash, reg_c = h2 initial_hash,
         reg_d = h3 initial_hash, reg_e = h4 initial_hash \<rparr>) (reg_d \<lparr> reg_a = h0 initial_hash, reg_b = h1 initial_hash, reg_c = h2 initial_hash,
         reg_d = h3 initial_hash, reg_e = h4 initial_hash \<rparr>))
               + bin_value (reg_e \<lparr> reg_a = h0 initial_hash, reg_b = h1 initial_hash, reg_c = h2 initial_hash,
         reg_d = h3 initial_hash, reg_e = h4 initial_hash \<rparr>) + bin_value (round_k 0) + bin_value ((replicate 80 (h0 initial_hash)) ! 0)) mod 2 ^ 32)"
    by (rule mp [OF conjunct1 [OF conjunct2 [OF T]] p2])
  have c3: "(\<exists>r h'. rounds (replicate 80 (h0 initial_hash)) \<lparr> reg_a = h0 initial_hash, reg_b = h1 initial_hash, reg_c = h2 initial_hash, reg_d = h3 initial_hash, reg_e = h4 initial_hash \<rparr> = Inr r
         \<and> regs32 r \<and> process_chunk initial_hash (replicate 80 (h0 initial_hash)) = Inr h' \<and> hash32 h'
         \<and> bin_value (h0 h') = (bin_value (h0 initial_hash) + bin_value (reg_a r)) mod 2 ^ 32
         \<and> bin_value (h1 h') = (bin_value (h1 initial_hash) + bin_value (reg_b r)) mod 2 ^ 32
         \<and> bin_value (h2 h') = (bin_value (h2 initial_hash) + bin_value (reg_c r)) mod 2 ^ 32
         \<and> bin_value (h3 h') = (bin_value (h3 initial_hash) + bin_value (reg_d r)) mod 2 ^ 32
         \<and> bin_value (h4 h') = (bin_value (h4 initial_hash) + bin_value (reg_e r)) mod 2 ^ 32)"
    by (rule mp [OF conjunct2 [OF conjunct2 [OF T]] p3])
  show ?thesis by (intro conjI p1 c1 p2 c2 p3 c3)
qed


text \<open>
  Claim C9. When every code unit of the input is at most 255, steps 1 to 4 turn each
  character into one group of exactly eight binary characters whose big-endian value is
  the code unit, and step 5 joins the groups, eight bits for each character.
\<close>

theorem each_character_is_one_byte:
  assumes "list_all (\<lambda>c. c < 256) str"
  shows "(\<exists>groups. step4_ascii_binary_8_length (step3_ascii_binary (step2_to_ascii_code str)) = Inr groups
     \<and> length groups = length str
     \<and> (\<forall>i<length str. length (groups ! i) = 8 \<and> binary (groups ! i)
            \<and> bin_value (groups ! i) = str ! i)
     \<and> step5_combine_str groups = concat groups
     \<and> length (step5_combine_str groups) = 8 * length str)"
  by (rule bytes_encoding [OF assms])

theorem each_character_is_one_byte_witness:
  "list_all (\<lambda>c. c < 256) (code_units ''abc'') \<and> (\<exists>groups. step4_ascii_binary_8_length (step3_ascii_binary (step2_to_ascii_code (code_units ''abc''))) = Inr groups
     \<and> length groups = length (code_units ''abc'')
     \<and> (\<forall>i<length (code_units ''abc''). length (groups ! i) = 8 \<and> binary (groups ! i)
            \<and> bin_value (groups ! i) = (code_units ''abc'') ! i)
     \<and> step5_combine_str groups = concat groups
     \<and> length (step5_combine_str groups) = 8 * length (code_units ''abc''))"
proof -
  have a: "list_all (\<lambda>c. c < 256) (code_units ''abc'')" by (simp add: code_units_def)
  show ?thesis by (intro conjI a each_character_is_one_byte [OF a])
qed

text \<open>
  Claim C6. For every input string the padded message is a binary string whose length is a
  multiple of 512 and at least 512; for the empty input it is the single block made of
  \<open>1\<close>, 447 zeros and the 64 zeros of the length field.
\<close>

theorem padded_length_is_positive_multiple_of_512:
  "(js_string str \<longrightarrow> (\<exists>p. padded_message str = Inr p \<and> binary p \<and> length p mod 512 = 0 \<and> 512 \<le> length p))
   \<and> padded_message [] = Inr (''1'' @ replicate 447 CHR ''0'' @ replicate 64 CHR ''0'')
   \<and> length (''1'' @ replicate 447 CHR ''0'' @ replicate 64 CHR ''0'') = 512"
proof (intro conjI impI)
  assume "js_string str"
  then show "(\<exists>p. padded_message str = Inr p \<and> binary p \<and> length p mod 512 = 0 \<and> 512 \<le> length p)" by (rule padded_message_js_string)
next
  show "padded_message [] = Inr (''1'' @ replicate 447 CHR ''0'' @ replicate 64 CHR ''0'')"
    by (rule padded_message_empty)
next
  show "length (''1'' @ replicate 447 CHR ''0'' @ replicate 64 CHR ''0'') = 512" by simp
qed

theorem padded_length_is_positive_multiple_of_512_witness:
  "js_string (code_units ''abc'') \<and> (\<exists>p. padded_message (code_units ''abc'') = Inr p \<and> binary p \<and> length p mod 512 = 0 \<and> 512 \<le> length p)"
proof -
  have a: "js_string (code_units ''abc'')" by (simp add: js_string_def code_units_def)
  note T = padded_length_is_positive_multiple_of_512 [of "code_units ''abc''"]
  have c: "(\<exists>p. padded_message (code_units ''abc'') = Inr p \<and> binary p \<and> length p mod 512 = 0 \<and> 512 \<le> length p)"
    by (rule mp [OF conjunct1 [OF T] a])
  show ?thesis by (intro conjI a c)
qed

text \<open>
  Claim C7. When the bit string of the message (the step 5 string) is shorter than
  \<open>2 ^ 64\<close>, the last 64 characters of the padded message are the 64-digit big-endian
  binary representation of its length.
\<close>

theorem length_field_encodes_bit_length:
  assumes "step4_ascii_binary_8_length (step3_ascii_binary (step2_to_ascii_code str)) = Inr groups"
    and "length (step5_combine_str groups) < 2 ^ 64"
  shows "(\<exists>p. padded_message str = Inr p \<and> 64 \<le> length p
          \<and> drop (length p - 64) p = fixed_digits 2 64 (length (step5_combine_str groups))
          \<and> binary (drop (length p - 64) p) \<and> length (drop (length p - 64) p) = 64
          \<and> bin_value (drop (length p - 64) p) = length (step5_combine_str groups))"
  by (rule length_field [OF assms])

theorem length_field_encodes_bit_length_witness:
  "step4_ascii_binary_8_length (step3_ascii_binary (step2_to_ascii_code (code_units ''abc'')))
      = Inr (map unit_bits (code_units ''abc''))
   \<and> length (step5_combine_str (map unit_bits (code_units ''abc''))) < 2 ^ 64
   \<and> (\<exists>p. padded_message (code_units ''abc'') = Inr p \<and> 64 \<le> length p
          \<and> drop (length p - 64) p = fixed_digits 2 64 (length (step5_combine_str (map unit_bits (code_units ''abc''))))
          \<and> binary (drop (length p - 64) p) \<and> length (drop (length p - 64) p) = 64
          \<and> bin_value (drop (length p - 64) p) = length (step5_combine_str (map unit_bits (code_units ''abc''))))"
proof -
  have a: "step4_ascii_binary_8_length (step3_ascii_binary (step2_to_ascii_code (code_units ''abc'')))
      = Inr (map unit_bits (code_units ''abc''))"
    by (rule step4_eq)
  have "js_string (code_units ''abc'')" by (simp add: js_string_def code_units_def)
  then have b: "length (step5_combine_str (map unit_bits (code_units ''abc''))) < 2 ^ 64"
    unfolding step5_combine_str_def by (rule js_string_bit_length)
  show ?thesis by (intro conjI a b length_field_encodes_bit_length [OF a b])
qed

end
